theory Spec2Isabelle
  imports Main "HOL-Library.Word"
begin

unbundle bit_operations_syntax

section \<open>The atomic primitive layer (include/atomic.h)\<close>

text \<open>
  Every operation of the layer acts on one \<^verbatim>\<open>volatile uint32_t\<close> cell. A cell is a
  32-bit word; an operation takes the cell's content (and its arguments) and gives back
  what the C function returns together with the new content of the cell. The memory
  order of an operation does not change the value it computes, so the acquire and the
  relaxed loads are the same function here, and so are the two stores. Both back ends
  (ARM64 and x86) compute the same values.
\<close>

type_synonym u32 = "32 word"

definition atomic_load_acquire :: "u32 \<Rightarrow> u32" where
  "atomic_load_acquire cell = cell"

definition atomic_store_release :: "u32 \<Rightarrow> u32 \<Rightarrow> u32" where
  "atomic_store_release cell v = v"

definition atomic_load :: "u32 \<Rightarrow> u32" where
  "atomic_load cell = cell"

definition atomic_store :: "u32 \<Rightarrow> u32 \<Rightarrow> u32" where
  "atomic_store cell v = v"

text \<open>Exchange: returns the old value, the cell holds the new one.\<close>

definition atomic_xchg :: "u32 \<Rightarrow> u32 \<Rightarrow> u32 \<times> u32" where
  "atomic_xchg cell v = (cell, v)"

text \<open>
  Compare-and-swap: \<^verbatim>\<open>__atomic_compare_exchange_n\<close> writes \<open>desired\<close> when the cell
  equals \<open>expected\<close>, and otherwise copies the cell into \<open>expected\<close>; the function
  returns \<open>expected\<close>, which in both cases is the old content of the cell.
\<close>

definition atomic_cmpxchg :: "u32 \<Rightarrow> u32 \<Rightarrow> u32 \<Rightarrow> u32 \<times> u32" where
  "atomic_cmpxchg cell expected desired =
     (if cell = expected then (expected, desired) else (cell, cell))"

definition atomic_fetch_add :: "u32 \<Rightarrow> u32 \<Rightarrow> u32 \<times> u32" where
  "atomic_fetch_add cell v = (cell, cell + v)"

definition atomic_and :: "u32 \<Rightarrow> u32 \<Rightarrow> u32 \<times> u32" where
  "atomic_and cell v = (cell, cell AND v)"

definition atomic_or :: "u32 \<Rightarrow> u32 \<Rightarrow> u32 \<times> u32" where
  "atomic_or cell v = (cell, cell OR v)"

text \<open>
  The platform-independent helpers. \<^verbatim>\<open>(uint32_t)(-(int32_t)value)\<close> is the two's
  complement negation of the word.
\<close>

definition atomic_fetch_sub :: "u32 \<Rightarrow> u32 \<Rightarrow> u32 \<times> u32" where
  "atomic_fetch_sub cell v = atomic_fetch_add cell (- v)"

definition atomic_add :: "u32 \<Rightarrow> u32 \<Rightarrow> u32 \<times> u32" where
  "atomic_add cell v = (case atomic_fetch_add cell v of (old, cell') \<Rightarrow> (old + v, cell'))"

definition atomic_sub :: "u32 \<Rightarrow> u32 \<Rightarrow> u32 \<times> u32" where
  "atomic_sub cell v = (case atomic_fetch_add cell (- v) of (old, cell') \<Rightarrow> (old - v, cell'))"

definition atomic_inc :: "u32 \<Rightarrow> u32 \<times> u32" where
  "atomic_inc cell = atomic_add cell 1"

definition atomic_dec :: "u32 \<Rightarrow> u32 \<times> u32" where
  "atomic_dec cell = atomic_sub cell 1"

definition atomic_cmpxchg_bool :: "u32 \<Rightarrow> u32 \<Rightarrow> u32 \<Rightarrow> bool \<times> u32" where
  "atomic_cmpxchg_bool cell expected desired =
     (case atomic_cmpxchg cell expected desired of (old, cell') \<Rightarrow> (old = expected, cell'))"

text \<open>A C truth value: \<^verbatim>\<open>1\<close> for true, \<^verbatim>\<open>0\<close> for false.\<close>

definition c_int :: "bool \<Rightarrow> int" where
  "c_int b = (if b then 1 else 0)"

section \<open>Spin locks (include/spinlock.h)\<close>

text \<open>
  A lock operation takes the lock and returns the lock as the operation leaves it. An
  operation with a spin loop is a partial function into \<open>option\<close>: \<open>None\<close> is the
  run in which the loop never ends. The operations run alone here: nothing else writes
  the lock between two of their accesses. \<^verbatim>\<open>cpu_pause\<close> changes no state.
\<close>

record spinlock_t =
  locked :: u32

definition spin_init :: "spinlock_t \<Rightarrow> spinlock_t" where
  "spin_init lock = lock\<lparr>spinlock_t.locked := atomic_store (spinlock_t.locked lock) 0\<rparr>"

definition spin_trylock :: "spinlock_t \<Rightarrow> int \<times> spinlock_t" where
  "spin_trylock lock =
     (case atomic_xchg (spinlock_t.locked lock) 1 of
        (old, cell) \<Rightarrow> (c_int (old = 0), lock\<lparr>spinlock_t.locked := cell\<rparr>))"

partial_function (option) spin_lock :: "spinlock_t \<Rightarrow> spinlock_t option" where
  "spin_lock lock =
     (case atomic_xchg (spinlock_t.locked lock) 1 of
        (old, cell) \<Rightarrow>
          if old \<noteq> 0 then spin_lock (lock\<lparr>spinlock_t.locked := cell\<rparr>)
          else Some (lock\<lparr>spinlock_t.locked := cell\<rparr>))"

definition spin_unlock :: "spinlock_t \<Rightarrow> spinlock_t" where
  "spin_unlock lock =
     lock\<lparr>spinlock_t.locked := atomic_store_release (spinlock_t.locked lock) 0\<rparr>"

record tatas_lock_t =
  locked :: u32

definition tatas_init :: "tatas_lock_t \<Rightarrow> tatas_lock_t" where
  "tatas_init lock = lock\<lparr>tatas_lock_t.locked := atomic_store (tatas_lock_t.locked lock) 0\<rparr>"

definition tatas_trylock :: "tatas_lock_t \<Rightarrow> int \<times> tatas_lock_t" where
  "tatas_trylock lock =
     (case atomic_xchg (tatas_lock_t.locked lock) 1 of
        (old, cell) \<Rightarrow> (c_int (old = 0), lock\<lparr>tatas_lock_t.locked := cell\<rparr>))"

partial_function (option) tatas_lock :: "tatas_lock_t \<Rightarrow> tatas_lock_t option" where
  "tatas_lock lock =
     (if atomic_load (tatas_lock_t.locked lock) = 0 then
        (case atomic_xchg (tatas_lock_t.locked lock) 1 of
           (old, cell) \<Rightarrow>
             if old = 0 then Some (lock\<lparr>tatas_lock_t.locked := cell\<rparr>)
             else tatas_lock (lock\<lparr>tatas_lock_t.locked := cell\<rparr>))
      else tatas_lock lock)"

definition tatas_unlock :: "tatas_lock_t \<Rightarrow> tatas_lock_t" where
  "tatas_unlock lock =
     lock\<lparr>tatas_lock_t.locked := atomic_store_release (tatas_lock_t.locked lock) 0\<rparr>"

section \<open>Ticket lock (include/ticketlock.h)\<close>

record ticketlock_t =
  next_ticket :: u32
  serving :: u32

definition ticket_init :: "ticketlock_t \<Rightarrow> ticketlock_t" where
  "ticket_init lock =
     (let lock1 = lock\<lparr>next_ticket := atomic_store (next_ticket lock) 0\<rparr>
      in lock1\<lparr>serving := atomic_store (serving lock1) 0\<rparr>)"

text \<open>The wait loop of \<^verbatim>\<open>ticket_lock\<close>: it reads and writes nothing but \<open>serving\<close>.\<close>

partial_function (option) ticket_lock_wait :: "ticketlock_t \<Rightarrow> u32 \<Rightarrow> ticketlock_t option" where
  "ticket_lock_wait lock my_ticket =
     (if atomic_load_acquire (serving lock) \<noteq> my_ticket then ticket_lock_wait lock my_ticket
      else Some lock)"

definition ticket_lock :: "ticketlock_t \<Rightarrow> ticketlock_t option" where
  "ticket_lock lock =
     (case atomic_fetch_add (next_ticket lock) 1 of
        (my_ticket, cell) \<Rightarrow> ticket_lock_wait (lock\<lparr>next_ticket := cell\<rparr>) my_ticket)"

text \<open>
  \<^verbatim>\<open>ticket_trylock\<close> makes up to four atomic accesses, and what it returns depends on
  what other threads do between them. The changes of the other threads between the
  first and the second access, the second and the third, and the third and the fourth
  are the parameters \<open>env1\<close>, \<open>env2\<close> and \<open>env3\<close>; in a sequential run each is the
  identity. The result is the returned \<^verbatim>\<open>int\<close> and the lock after the last access.
\<close>

definition ticket_trylock ::
  "(ticketlock_t \<Rightarrow> ticketlock_t) \<Rightarrow> (ticketlock_t \<Rightarrow> ticketlock_t) \<Rightarrow>
   (ticketlock_t \<Rightarrow> ticketlock_t) \<Rightarrow> ticketlock_t \<Rightarrow> int \<times> ticketlock_t" where
  "ticket_trylock env1 env2 env3 lock =
     (let next_ticket' = atomic_load (next_ticket lock);
          lock1 = env1 lock;
          serving' = atomic_load (serving lock1)
      in if next_ticket' \<noteq> serving' then (0, lock1)
         else
           let lock2 = env2 lock1
           in (case atomic_cmpxchg_bool (next_ticket lock2) next_ticket' (next_ticket' + 1) of
                 (ok, cell) \<Rightarrow>
                   let lock3 = lock2\<lparr>next_ticket := cell\<rparr>
                   in if ok then
                        let lock4 = env3 lock3
                        in (c_int (atomic_load_acquire (serving lock4) = next_ticket'), lock4)
                      else (0, lock3)))"

definition ticket_unlock :: "ticketlock_t \<Rightarrow> ticketlock_t" where
  "ticket_unlock lock =
     (let next = atomic_load (serving lock) + 1
      in lock\<lparr>serving := atomic_store_release (serving lock) next\<rparr>)"

section \<open>Anderson array lock (include/ticketlock.h)\<close>

text \<open>
  \<open>flags\<close> is the C array of \<^verbatim>\<open>ANDERSON_LOCK_MAX_THREADS\<close> cells, a list of that
  length. Two things the C code leaves undefined are results of their own here: the
  remainder by a \<open>num_slots\<close> of zero, and an index outside the array.
\<close>

datatype fault = DivisionByZero | OutOfBounds | NullPointer | WildPointer

definition ANDERSON_LOCK_MAX_THREADS :: nat where
  "ANDERSON_LOCK_MAX_THREADS = 64"

record anderson_lock_t =
  next_slot :: u32
  serving_slot :: u32
  flags :: "u32 list"
  num_slots :: u32

text \<open>
  The loop of \<^verbatim>\<open>anderson_init\<close>, from index \<open>i\<close> on. The C index is an \<^verbatim>\<open>int\<close>
  that stays within 0..64, since the caller has clamped \<open>num_slots\<close>.
\<close>

function anderson_init_loop :: "nat \<Rightarrow> u32 \<Rightarrow> u32 list \<Rightarrow> u32 list" where
  "anderson_init_loop i n fl =
     (if i < unat n
      then anderson_init_loop (i + 1) n (fl[i := atomic_store (fl ! i) (if i = 0 then 1 else 0)])
      else fl)"
  by pat_completeness auto
termination
  by (relation "measure (\<lambda>(i, n, fl). unat n - i)") auto

declare anderson_init_loop.simps [simp del]

definition anderson_init :: "anderson_lock_t \<Rightarrow> u32 \<Rightarrow> anderson_lock_t" where
  "anderson_init lock n =
     (let n' = (if unat n > ANDERSON_LOCK_MAX_THREADS then of_nat ANDERSON_LOCK_MAX_THREADS else n);
          lock1 = lock\<lparr>num_slots := n'\<rparr>;
          lock2 = lock1\<lparr>next_slot := atomic_store (next_slot lock1) 0\<rparr>;
          lock3 = lock2\<lparr>serving_slot := atomic_store (serving_slot lock2) 0\<rparr>
      in lock3\<lparr>flags := anderson_init_loop 0 n' (flags lock3)\<rparr>)"

text \<open>The wait loop of \<^verbatim>\<open>anderson_lock\<close> on the flag of slot \<open>my_slot\<close>.\<close>

partial_function (option) anderson_lock_wait :: "anderson_lock_t \<Rightarrow> nat \<Rightarrow> anderson_lock_t option" where
  "anderson_lock_wait lock my_slot =
     (if atomic_load_acquire (flags lock ! my_slot) = 0 then anderson_lock_wait lock my_slot
      else Some lock)"

definition anderson_lock :: "anderson_lock_t \<Rightarrow> (fault + anderson_lock_t) option" where
  "anderson_lock lock =
     (case atomic_fetch_add (next_slot lock) 1 of
        (old, cell) \<Rightarrow>
          let lock1 = lock\<lparr>next_slot := cell\<rparr>
          in if num_slots lock1 = 0 then Some (Inl DivisionByZero)
             else
               let my_slot = unat (old mod num_slots lock1)
               in if ANDERSON_LOCK_MAX_THREADS \<le> my_slot then Some (Inl OutOfBounds)
                  else
                    (case anderson_lock_wait lock1 my_slot of
                       None \<Rightarrow> None
                     | Some lock2 \<Rightarrow>
                         Some (Inr (lock2\<lparr>flags := (flags lock2)
                           [my_slot := atomic_store_release (flags lock2 ! my_slot) 0]\<rparr>))))"

definition anderson_unlock :: "anderson_lock_t \<Rightarrow> fault + anderson_lock_t" where
  "anderson_unlock lock =
     (let next_slot' = atomic_load (serving_slot lock) + 1
      in if num_slots lock = 0 then Inl DivisionByZero
         else
           let lock1 = lock\<lparr>serving_slot :=
                 atomic_store (serving_slot lock) (next_slot' mod num_slots lock)\<rparr>;
               i = unat (next_slot' mod num_slots lock1)
           in if ANDERSON_LOCK_MAX_THREADS \<le> i then Inl OutOfBounds
              else Inr (lock1\<lparr>flags := (flags lock1)
                     [i := atomic_store_release (flags lock1 ! i) 1]\<rparr>))"

section \<open>Reader-writer locks (include/rwlock.h)\<close>

record rwlock_t =
  readers :: u32
  writer :: u32

definition rw_init :: "rwlock_t \<Rightarrow> rwlock_t" where
  "rw_init lock =
     (let lock1 = lock\<lparr>rwlock_t.readers := atomic_store (rwlock_t.readers lock) 0\<rparr>
      in lock1\<lparr>writer := atomic_store (writer lock1) 0\<rparr>)"

partial_function (option) rw_read_lock :: "rwlock_t \<Rightarrow> rwlock_t option" where
  "rw_read_lock lock =
     (if atomic_load (writer lock) = 0 then
        (let old_readers = atomic_load (rwlock_t.readers lock)
         in case atomic_cmpxchg_bool (rwlock_t.readers lock) old_readers (old_readers + 1) of
              (ok, cell) \<Rightarrow>
                let lock1 = lock\<lparr>rwlock_t.readers := cell\<rparr>
                in if ok then
                     (if atomic_load (writer lock1) = 0 then Some lock1
                      else rw_read_lock
                             (lock1\<lparr>rwlock_t.readers := snd (atomic_dec (rwlock_t.readers lock1))\<rparr>))
                   else rw_read_lock lock1)
      else rw_read_lock lock)"

definition rw_read_trylock :: "rwlock_t \<Rightarrow> int \<times> rwlock_t" where
  "rw_read_trylock lock =
     (if atomic_load (writer lock) \<noteq> 0 then (0, lock)
      else
        let old_readers = atomic_load (rwlock_t.readers lock)
        in case atomic_cmpxchg_bool (rwlock_t.readers lock) old_readers (old_readers + 1) of
             (ok, cell) \<Rightarrow>
               let lock1 = lock\<lparr>rwlock_t.readers := cell\<rparr>
               in if ok then
                    (if atomic_load (writer lock1) = 0 then (1, lock1)
                     else (0, lock1\<lparr>rwlock_t.readers := snd (atomic_dec (rwlock_t.readers lock1))\<rparr>))
                  else (0, lock1))"

definition rw_read_unlock :: "rwlock_t \<Rightarrow> rwlock_t" where
  "rw_read_unlock lock = lock\<lparr>rwlock_t.readers := snd (atomic_dec (rwlock_t.readers lock))\<rparr>"

text \<open>The two loops of \<^verbatim>\<open>rw_write_lock\<close>, one after the other.\<close>

partial_function (option) rw_write_lock_announce :: "rwlock_t \<Rightarrow> rwlock_t option" where
  "rw_write_lock_announce lock =
     (case atomic_xchg (writer lock) 1 of
        (old, cell) \<Rightarrow>
          if old \<noteq> 0 then rw_write_lock_announce (lock\<lparr>writer := cell\<rparr>)
          else Some (lock\<lparr>writer := cell\<rparr>))"

partial_function (option) rw_write_lock_drain :: "rwlock_t \<Rightarrow> rwlock_t option" where
  "rw_write_lock_drain lock =
     (if atomic_load (rwlock_t.readers lock) \<noteq> 0 then rw_write_lock_drain lock else Some lock)"

definition rw_write_lock :: "rwlock_t \<Rightarrow> rwlock_t option" where
  "rw_write_lock lock =
     (case rw_write_lock_announce lock of
        None \<Rightarrow> None
      | Some lock1 \<Rightarrow> rw_write_lock_drain lock1)"

definition rw_write_trylock :: "rwlock_t \<Rightarrow> int \<times> rwlock_t" where
  "rw_write_trylock lock =
     (case atomic_xchg (writer lock) 1 of
        (old, cell) \<Rightarrow>
          let lock1 = lock\<lparr>writer := cell\<rparr>
          in if old \<noteq> 0 then (0, lock1)
             else if atomic_load (rwlock_t.readers lock1) \<noteq> 0
               then (0, lock1\<lparr>writer := atomic_store (writer lock1) 0\<rparr>)
               else (1, lock1))"

definition rw_write_unlock :: "rwlock_t \<Rightarrow> rwlock_t" where
  "rw_write_unlock lock = lock\<lparr>writer := atomic_store_release (writer lock) 0\<rparr>"

record rwlock_phase_t =
  readers :: u32
  writers :: u32
  writer_active :: u32
  read_phase :: u32

definition rw_phase_init :: "rwlock_phase_t \<Rightarrow> rwlock_phase_t" where
  "rw_phase_init lock =
     (let lock1 = lock\<lparr>rwlock_phase_t.readers := atomic_store (rwlock_phase_t.readers lock) 0\<rparr>;
          lock2 = lock1\<lparr>writers := atomic_store (writers lock1) 0\<rparr>;
          lock3 = lock2\<lparr>writer_active := atomic_store (writer_active lock2) 0\<rparr>
      in lock3\<lparr>read_phase := atomic_store (read_phase lock3) 0\<rparr>)"

partial_function (option) rw_phase_read_lock :: "rwlock_phase_t \<Rightarrow> rwlock_phase_t option" where
  "rw_phase_read_lock lock =
     (if atomic_load (writer_active lock) = 0 \<and> atomic_load (read_phase lock) = 1 then
        (let old_readers = atomic_load (rwlock_phase_t.readers lock)
         in case atomic_cmpxchg_bool (rwlock_phase_t.readers lock) old_readers (old_readers + 1) of
              (ok, cell) \<Rightarrow>
                let lock1 = lock\<lparr>rwlock_phase_t.readers := cell\<rparr>
                in if ok then
                     (if atomic_load (writer_active lock1) = 0 then Some lock1
                      else rw_phase_read_lock
                             (lock1\<lparr>rwlock_phase_t.readers :=
                                snd (atomic_dec (rwlock_phase_t.readers lock1))\<rparr>))
                   else rw_phase_read_lock lock1)
      else rw_phase_read_lock lock)"

definition rw_phase_read_unlock :: "rwlock_phase_t \<Rightarrow> rwlock_phase_t" where
  "rw_phase_read_unlock lock =
     lock\<lparr>rwlock_phase_t.readers := snd (atomic_dec (rwlock_phase_t.readers lock))\<rparr>"

text \<open>The two loops of \<^verbatim>\<open>rw_phase_write_lock\<close>.\<close>

partial_function (option) rw_phase_write_lock_drain :: "rwlock_phase_t \<Rightarrow> rwlock_phase_t option" where
  "rw_phase_write_lock_drain lock =
     (if atomic_load (rwlock_phase_t.readers lock) \<noteq> 0 then rw_phase_write_lock_drain lock
      else Some lock)"

partial_function (option) rw_phase_write_lock_activate :: "rwlock_phase_t \<Rightarrow> rwlock_phase_t option" where
  "rw_phase_write_lock_activate lock =
     (case atomic_xchg (writer_active lock) 1 of
        (old, cell) \<Rightarrow>
          if old \<noteq> 0 then rw_phase_write_lock_activate (lock\<lparr>writer_active := cell\<rparr>)
          else Some (lock\<lparr>writer_active := cell\<rparr>))"

definition rw_phase_write_lock :: "rwlock_phase_t \<Rightarrow> rwlock_phase_t option" where
  "rw_phase_write_lock lock =
     (let lock1 = lock\<lparr>writers := snd (atomic_inc (writers lock))\<rparr>;
          lock2 = lock1\<lparr>read_phase := atomic_store (read_phase lock1) 0\<rparr>
      in case rw_phase_write_lock_drain lock2 of
           None \<Rightarrow> None
         | Some lock3 \<Rightarrow>
             (case rw_phase_write_lock_activate lock3 of
                None \<Rightarrow> None
              | Some lock4 \<Rightarrow> Some (lock4\<lparr>writers := snd (atomic_dec (writers lock4))\<rparr>)))"

definition rw_phase_write_unlock :: "rwlock_phase_t \<Rightarrow> rwlock_phase_t" where
  "rw_phase_write_unlock lock =
     (let lock1 = lock\<lparr>writer_active := atomic_store_release (writer_active lock) 0\<rparr>
      in lock1\<lparr>read_phase := atomic_store (read_phase lock1) 1\<rparr>)"

section \<open>Queue locks (include/mcslock.h)\<close>

text \<open>
  The source keeps a node's address in a 32-bit atomic cell
  (\<^verbatim>\<open>(uint32_t)node\<close>), so an address is a 32-bit word, with \<open>NULL\<close> the word 0. The
  nodes live in a store, a function from addresses to node contents; the lock is a
  separate object. Following a null pointer is a fault.
\<close>

definition NULL :: "'a::len word" where
  "NULL = 0"

record mcs_node_t =
  "next" :: u32
  locked :: u32
  prev :: u32

record mcs_lock_t =
  tail :: u32

type_synonym mcs_nodes = "u32 \<Rightarrow> mcs_node_t"

definition mcs_init :: "mcs_lock_t \<Rightarrow> mcs_lock_t" where
  "mcs_init lock = lock\<lparr>mcs_lock_t.tail := atomic_store (mcs_lock_t.tail lock) 0\<rparr>"

definition mcs_node_init :: "mcs_nodes \<Rightarrow> u32 \<Rightarrow> fault + mcs_nodes" where
  "mcs_node_init nodes node =
     (if node = NULL then Inl NullPointer
      else Inr (nodes(node := (nodes node)
             \<lparr>mcs_node_t.next := NULL, mcs_node_t.locked := 0, mcs_node_t.prev := NULL\<rparr>)))"

text \<open>The wait loop of \<^verbatim>\<open>mcs_lock\<close> on the caller's own \<open>locked\<close> field.\<close>

partial_function (option) mcs_lock_wait :: "mcs_nodes \<Rightarrow> u32 \<Rightarrow> mcs_nodes option" where
  "mcs_lock_wait nodes node =
     (if atomic_load_acquire (mcs_node_t.locked (nodes node)) \<noteq> 0 then mcs_lock_wait nodes node
      else Some nodes)"

definition mcs_lock ::
  "mcs_lock_t \<times> mcs_nodes \<Rightarrow> u32 \<Rightarrow> (fault + mcs_lock_t \<times> mcs_nodes) option" where
  "mcs_lock s node =
     (case s of (lock, nodes) \<Rightarrow>
        if node = NULL then Some (Inl NullPointer)
        else
          let nodes1 = nodes(node := (nodes node)\<lparr>mcs_node_t.next := NULL\<rparr>);
              nodes2 = nodes1(node := (nodes1 node)\<lparr>mcs_node_t.locked := 0\<rparr>)
          in case atomic_xchg (mcs_lock_t.tail lock) node of
               (prev', cell) \<Rightarrow>
                 let lock1 = lock\<lparr>mcs_lock_t.tail := cell\<rparr>
                 in if prev' \<noteq> NULL then
                      let nodes3 = nodes2(node := (nodes2 node)\<lparr>mcs_node_t.locked := 1\<rparr>);
                          nodes4 = nodes3(prev' := (nodes3 prev')\<lparr>mcs_node_t.next :=
                             atomic_store_release (mcs_node_t.next (nodes3 prev')) node\<rparr>)
                      in (case mcs_lock_wait nodes4 node of
                            None \<Rightarrow> None
                          | Some nodes5 \<Rightarrow> Some (Inr (lock1, nodes5)))
                    else Some (Inr (lock1, nodes2)))"

text \<open>The wait loop of \<^verbatim>\<open>mcs_unlock\<close>: it returns the successor it has read.\<close>

partial_function (option) mcs_unlock_wait :: "mcs_nodes \<Rightarrow> u32 \<Rightarrow> u32 option" where
  "mcs_unlock_wait nodes node =
     (let next' = atomic_load (mcs_node_t.next (nodes node))
      in if next' = NULL then mcs_unlock_wait nodes node else Some next')"

text \<open>
  The last statement of \<^verbatim>\<open>mcs_unlock\<close>, the release store into the successor's
  \<open>locked\<close> field, which both of its paths reach.
\<close>

definition mcs_pass :: "mcs_lock_t \<times> mcs_nodes \<Rightarrow> u32 \<Rightarrow> fault + mcs_lock_t \<times> mcs_nodes" where
  "mcs_pass s next' =
     (case s of (lock, nodes) \<Rightarrow>
        if next' = NULL then Inl NullPointer
        else Inr (lock, nodes(next' := (nodes next')\<lparr>mcs_node_t.locked :=
               atomic_store_release (mcs_node_t.locked (nodes next')) 0\<rparr>)))"

definition mcs_unlock ::
  "mcs_lock_t \<times> mcs_nodes \<Rightarrow> u32 \<Rightarrow> (fault + mcs_lock_t \<times> mcs_nodes) option" where
  "mcs_unlock s node =
     (case s of (lock, nodes) \<Rightarrow>
        if node = NULL then Some (Inl NullPointer)
        else
          let next' = atomic_load (mcs_node_t.next (nodes node))
          in if next' = NULL then
               (let old_tail = node
                in case atomic_cmpxchg_bool (mcs_lock_t.tail lock) old_tail 0 of
                     (ok, cell) \<Rightarrow>
                       let lock1 = lock\<lparr>mcs_lock_t.tail := cell\<rparr>
                       in if ok then Some (Inr (lock1, nodes))
                          else (case mcs_unlock_wait nodes node of
                                  None \<Rightarrow> None
                                | Some next'' \<Rightarrow> Some (mcs_pass (lock1, nodes) next'')))
             else Some (mcs_pass (lock, nodes) next'))"

text \<open>
  \<^verbatim>\<open>clh_lock\<close> follows the pointer it rebuilds from the 32-bit word it finds in
  \<open>tail\<close>, so for the CLH lock the width of a pointer matters. On the x86-64 and
  AArch64 targets of \<^verbatim>\<open>atomic.h\<close> a pointer has 64 bits (on 32-bit x86 every address
  is below \<open>2^32\<close>): a node address is a 64-bit word, \<^verbatim>\<open>(uint32_t)node\<close> keeps its low
  32 bits, and \<^verbatim>\<open>(clh_node_t *)word\<close> extends the word with zeros. Of the
  pointer-sized field \<open>tail\<close> the code reads and writes only the 32-bit word at its
  address; the model keeps that word. The nodes that exist are the domain of the store;
  following the null pointer, or a pointer to anything that is not a node, is a fault.
  (The MCS operations above follow a rebuilt pointer only on their contended paths.)
\<close>

type_synonym addr = "64 word"

definition ptr_to_u32 :: "addr \<Rightarrow> u32" where
  "ptr_to_u32 p = ucast p"

definition u32_to_ptr :: "u32 \<Rightarrow> addr" where
  "u32_to_ptr w = ucast w"

record clh_node_t =
  prev :: addr
  locked :: u32

record clh_lock_t =
  tail :: u32

type_synonym clh_nodes = "addr \<rightharpoonup> clh_node_t"

definition clh_deref :: "clh_nodes \<Rightarrow> addr \<Rightarrow> fault + clh_node_t" where
  "clh_deref nodes p =
     (if p = NULL then Inl NullPointer
      else case nodes p of None \<Rightarrow> Inl WildPointer | Some nd \<Rightarrow> Inr nd)"

text \<open>
  \<^verbatim>\<open>clh_init\<close> allocates its dummy node with \<^verbatim>\<open>malloc\<close>; the address \<^verbatim>\<open>malloc\<close>
  returns is the parameter \<open>dummy\<close> (\<open>NULL\<close> when the allocation fails, which the
  source does not check). The new block becomes a node of the store, and the two
  assignments give both of its fields their values.
\<close>

definition clh_init :: "clh_lock_t \<times> clh_nodes \<Rightarrow> addr \<Rightarrow> fault + clh_lock_t \<times> clh_nodes" where
  "clh_init s dummy =
     (case s of (lock, nodes) \<Rightarrow>
        if dummy = NULL then Inl NullPointer
        else
          let nodes1 = nodes(dummy \<mapsto> \<lparr>clh_node_t.prev = NULL, clh_node_t.locked = 0\<rparr>)
          in Inr (lock\<lparr>clh_lock_t.tail :=
                      atomic_store (clh_lock_t.tail lock) (ptr_to_u32 dummy)\<rparr>, nodes1))"

definition clh_node_init :: "clh_nodes \<Rightarrow> addr \<Rightarrow> fault + clh_nodes" where
  "clh_node_init nodes node =
     (case clh_deref nodes node of
        Inl f \<Rightarrow> Inl f
      | Inr nd \<Rightarrow> Inr (nodes(node \<mapsto> nd\<lparr>clh_node_t.locked := 0, clh_node_t.prev := NULL\<rparr>)))"

text \<open>
  The wait loop of \<^verbatim>\<open>clh_lock\<close> on the \<open>locked\<close> field of the node that \<open>prev'\<close>
  points to.
\<close>

partial_function (option) clh_lock_wait :: "clh_nodes \<Rightarrow> addr \<Rightarrow> (fault + clh_nodes) option" where
  "clh_lock_wait nodes prev' =
     (case clh_deref nodes prev' of
        Inl f \<Rightarrow> Some (Inl f)
      | Inr nd \<Rightarrow>
          if atomic_load_acquire (clh_node_t.locked nd) \<noteq> 0 then clh_lock_wait nodes prev'
          else Some (Inr nodes))"

definition clh_lock ::
  "clh_lock_t \<times> clh_nodes \<Rightarrow> addr \<Rightarrow> (fault + clh_lock_t \<times> clh_nodes) option" where
  "clh_lock s node =
     (case s of (lock, nodes) \<Rightarrow>
        case clh_deref nodes node of
          Inl f \<Rightarrow> Some (Inl f)
        | Inr nd \<Rightarrow>
            let nd1 = nd\<lparr>clh_node_t.locked := 1\<rparr>;
                nodes1 = nodes(node \<mapsto> nd1)
            in case atomic_xchg (clh_lock_t.tail lock) (ptr_to_u32 node) of
                 (old, cell) \<Rightarrow>
                   let prev' = u32_to_ptr old;
                       lock1 = lock\<lparr>clh_lock_t.tail := cell\<rparr>;
                       nodes2 = nodes1(node \<mapsto> nd1\<lparr>clh_node_t.prev := prev'\<rparr>)
                   in (case clh_lock_wait nodes2 prev' of
                         None \<Rightarrow> None
                       | Some (Inl f) \<Rightarrow> Some (Inl f)
                       | Some (Inr nodes3) \<Rightarrow> Some (Inr (lock1, nodes3))))"

definition clh_unlock :: "clh_lock_t \<times> clh_nodes \<Rightarrow> addr \<Rightarrow> fault + clh_lock_t \<times> clh_nodes" where
  "clh_unlock s node =
     (case s of (lock, nodes) \<Rightarrow>
        case clh_deref nodes node of
          Inl f \<Rightarrow> Inl f
        | Inr nd \<Rightarrow>
            Inr (lock, nodes(node \<mapsto> nd\<lparr>clh_node_t.locked :=
                   atomic_store_release (clh_node_t.locked nd) 0\<rparr>)))"

section \<open>Runs of the operations\<close>

text \<open>
  The states of the phase-fair lock that the operations reach from \<^verbatim>\<open>rw_phase_init\<close>
  while no \<^verbatim>\<open>rw_phase_write_unlock\<close> has run: every other operation may run, in any
  order, each to its return.
\<close>

inductive rw_phase_before_unlock :: "rwlock_phase_t \<Rightarrow> bool" where
  init: "rw_phase_before_unlock (rw_phase_init lock)"
| read_lock: "rw_phase_before_unlock s \<Longrightarrow> rw_phase_read_lock s = Some s' \<Longrightarrow> rw_phase_before_unlock s'"
| read_unlock: "rw_phase_before_unlock s \<Longrightarrow> rw_phase_before_unlock (rw_phase_read_unlock s)"
| write_lock: "rw_phase_before_unlock s \<Longrightarrow> rw_phase_write_lock s = Some s' \<Longrightarrow> rw_phase_before_unlock s'"

text \<open>
  The states of the Anderson lock reached from \<^verbatim>\<open>anderson_init lock0 n\<close>, each with
  the fact whether the lock is held. \<^verbatim>\<open>anderson_lock\<close> may be called in any state and
  counts when it returns; \<^verbatim>\<open>anderson_unlock\<close> is called by the holder.
\<close>

inductive anderson_reachable :: "anderson_lock_t \<Rightarrow> u32 \<Rightarrow> anderson_lock_t \<Rightarrow> bool \<Rightarrow> bool"
  for lock0 :: anderson_lock_t and n :: u32 where
  init: "anderson_reachable lock0 n (anderson_init lock0 n) False"
| acquire: "anderson_reachable lock0 n s held \<Longrightarrow> anderson_lock s = Some (Inr s') \<Longrightarrow>
     anderson_reachable lock0 n s' True"
| release: "anderson_reachable lock0 n s True \<Longrightarrow> anderson_unlock s = Inr s' \<Longrightarrow>
     anderson_reachable lock0 n s' False"

text \<open>
  The invariant of the reachable states: the slot count is the clamped argument, the
  serving slot is a slot, and the flags of the slots are all 0 but, while the lock is
  free, the flag of the serving slot, which is 1.
\<close>

definition anderson_inv :: "u32 \<Rightarrow> anderson_lock_t \<Rightarrow> bool \<Rightarrow> bool" where
  "anderson_inv n s held =
     (num_slots s = (if 64 < n then 64 else n) \<and> length (flags s) = 64 \<and>
      unat (serving_slot s) < unat (num_slots s) \<and>
      (\<forall>i < unat (num_slots s).
         flags s ! i = (if \<not> held \<and> i = unat (serving_slot s) then 1 else 0)))"

text \<open>
  A sequence of matched acquire; release pairs, run one after the other on one lock:
  \<open>k\<close> pairs for a lock whose operations take the lock only, and one pair for each node
  of a list for a queue lock, whose operations take the caller's node as well. The
  sequence has a final state when every operation in it returns; \<open>returned\<close> keeps the
  state of an operation that returned and drops a fault.
\<close>

fun lock_pairs :: "('s \<Rightarrow> 's option) \<Rightarrow> ('s \<Rightarrow> 's option) \<Rightarrow> nat \<Rightarrow> 's \<Rightarrow> 's option" where
  "lock_pairs acquire release 0 s = Some s"
| "lock_pairs acquire release (Suc k) s =
     (case acquire s of
        None \<Rightarrow> None
      | Some s1 \<Rightarrow>
          (case release s1 of
             None \<Rightarrow> None
           | Some s2 \<Rightarrow> lock_pairs acquire release k s2))"

fun queue_lock_pairs ::
  "('s \<Rightarrow> 'a \<Rightarrow> 's option) \<Rightarrow> ('s \<Rightarrow> 'a \<Rightarrow> 's option) \<Rightarrow> 'a list \<Rightarrow> 's \<Rightarrow> 's option" where
  "queue_lock_pairs acquire release [] s = Some s"
| "queue_lock_pairs acquire release (node # rest) s =
     (case acquire s node of
        None \<Rightarrow> None
      | Some s1 \<Rightarrow>
          (case release s1 node of
             None \<Rightarrow> None
           | Some s2 \<Rightarrow> queue_lock_pairs acquire release rest s2))"

definition returned :: "(fault + 's) option \<Rightarrow> 's option" where
  "returned r = (case r of None \<Rightarrow> None | Some (Inl f) \<Rightarrow> None | Some (Inr s) \<Rightarrow> Some s)"

text \<open>
  The Anderson lock \<open>s0\<close> with its counters moved on by \<open>k\<close> acquisitions: \<open>next_slot\<close>
  is \<open>k\<close>, the serving slot is \<open>k mod num_slots\<close>, and of the flags 0 and \<open>k mod num_slots\<close>
  the second alone is set.
\<close>

definition anderson_after :: "anderson_lock_t \<Rightarrow> nat \<Rightarrow> anderson_lock_t" where
  "anderson_after s0 k =
     s0\<lparr>next_slot := of_nat k,
        serving_slot := of_nat (k mod unat (num_slots s0)),
        flags := (flags s0)[0 := 0, k mod unat (num_slots s0) := 1]\<rparr>"

section \<open>The Anderson lock under several threads\<close>

text \<open>
  Several threads call \<^verbatim>\<open>anderson_lock\<close> and \<^verbatim>\<open>anderson_unlock\<close> on one lock, and
  their atomic accesses interleave. Where a thread stands:
  \<^item> \<open>Outside\<close>: in no call, and not holding the lock;
  \<^item> \<open>Waiting my_slot\<close>: in \<^verbatim>\<open>anderson_lock\<close>, after the fetch-add, in the wait loop;
  \<^item> \<open>Passed my_slot\<close>: it has read its flag as set and left the loop; the store that
    clears the flag is still to come;
  \<^item> \<open>Holding\<close>: \<^verbatim>\<open>anderson_lock\<close> has returned;
  \<^item> \<open>Releasing1 next_slot\<close>: in \<^verbatim>\<open>anderson_unlock\<close>, after the load of
    \<open>serving_slot\<close>, with the local \<open>next_slot\<close>;
  \<^item> \<open>Releasing2 next_slot\<close>: after the store to \<open>serving_slot\<close>; the store that sets
    the next flag is still to come.
  A thread calls \<^verbatim>\<open>anderson_unlock\<close> only when it holds the lock. The accesses are
  the atomic operations of \<^verbatim>\<open>atomic.h\<close>; each takes effect at once, and the accesses
  of all threads are taken in one order.
\<close>

datatype anderson_pc =
  Outside | Waiting nat | Passed nat | Holding | Releasing1 u32 | Releasing2 u32

text \<open>
  One step of thread \<open>t\<close>: one atomic access of \<^verbatim>\<open>anderson_lock\<close> or
  \<^verbatim>\<open>anderson_unlock\<close>, in the order of the source. The lock has a slot count that is
  not zero, and the slots are inside the array.
\<close>

inductive anderson_step ::
  "nat \<Rightarrow> anderson_lock_t \<times> (nat \<Rightarrow> anderson_pc) \<Rightarrow> anderson_lock_t \<times> (nat \<Rightarrow> anderson_pc) \<Rightarrow> bool" where
  fetch_add: "pc t = Outside \<Longrightarrow> num_slots lock \<noteq> 0 \<Longrightarrow>
     atomic_fetch_add (next_slot lock) 1 = (old, cell) \<Longrightarrow>
     anderson_step t (lock, pc)
       (lock\<lparr>next_slot := cell\<rparr>, pc(t := Waiting (unat (old mod num_slots lock))))"
| spin: "pc t = Waiting my_slot \<Longrightarrow> my_slot < ANDERSON_LOCK_MAX_THREADS \<Longrightarrow>
     atomic_load_acquire (flags lock ! my_slot) = 0 \<Longrightarrow>
     anderson_step t (lock, pc) (lock, pc)"
| pass: "pc t = Waiting my_slot \<Longrightarrow> my_slot < ANDERSON_LOCK_MAX_THREADS \<Longrightarrow>
     atomic_load_acquire (flags lock ! my_slot) \<noteq> 0 \<Longrightarrow>
     anderson_step t (lock, pc) (lock, pc(t := Passed my_slot))"
| clear: "pc t = Passed my_slot \<Longrightarrow>
     anderson_step t (lock, pc)
       (lock\<lparr>flags := (flags lock)[my_slot := atomic_store_release (flags lock ! my_slot) 0]\<rparr>,
        pc(t := Holding))"
| load_serving: "pc t = Holding \<Longrightarrow>
     anderson_step t (lock, pc) (lock, pc(t := Releasing1 (atomic_load (serving_slot lock) + 1)))"
| store_serving: "pc t = Releasing1 next_slot' \<Longrightarrow> num_slots lock \<noteq> 0 \<Longrightarrow>
     anderson_step t (lock, pc)
       (lock\<lparr>serving_slot := atomic_store (serving_slot lock) (next_slot' mod num_slots lock)\<rparr>,
        pc(t := Releasing2 next_slot'))"
| set_flag: "pc t = Releasing2 next_slot' \<Longrightarrow> num_slots lock \<noteq> 0 \<Longrightarrow>
     unat (next_slot' mod num_slots lock) < ANDERSON_LOCK_MAX_THREADS \<Longrightarrow>
     anderson_step t (lock, pc)
       (lock\<lparr>flags := (flags lock)[unat (next_slot' mod num_slots lock) :=
          atomic_store_release (flags lock ! unat (next_slot' mod num_slots lock)) 1]\<rparr>,
        pc(t := Outside))"

text \<open>
  The runs of the threads \<open>T\<close> from \<^verbatim>\<open>anderson_init lock0 n\<close>, every thread outside:
  \<open>anderson_run lock0 n T k s\<close> says that the run has reached \<open>s\<close> and that \<open>k\<close> calls of
  \<^verbatim>\<open>anderson_lock\<close> have started in it.
\<close>

inductive anderson_run ::
  "anderson_lock_t \<Rightarrow> u32 \<Rightarrow> nat set \<Rightarrow> nat \<Rightarrow> anderson_lock_t \<times> (nat \<Rightarrow> anderson_pc) \<Rightarrow> bool"
  for lock0 :: anderson_lock_t and n :: u32 and T :: "nat set" where
  start: "anderson_run lock0 n T 0 (anderson_init lock0 n, \<lambda>t. Outside)"
| call: "anderson_run lock0 n T k (lock, pc) \<Longrightarrow> t \<in> T \<Longrightarrow> pc t = Outside \<Longrightarrow>
     anderson_step t (lock, pc) s' \<Longrightarrow> anderson_run lock0 n T (Suc k) s'"
| step: "anderson_run lock0 n T k (lock, pc) \<Longrightarrow> t \<in> T \<Longrightarrow> pc t \<noteq> Outside \<Longrightarrow>
     anderson_step t (lock, pc) s' \<Longrightarrow> anderson_run lock0 n T k s'"

text \<open>A thread is in its critical section from the return of \<^verbatim>\<open>anderson_lock\<close> to the
  last store of \<^verbatim>\<open>anderson_unlock\<close>.\<close>

fun anderson_inside :: "anderson_pc \<Rightarrow> bool" where
  "anderson_inside Holding = True"
| "anderson_inside (Releasing1 x) = True"
| "anderson_inside (Releasing2 x) = True"
| "anderson_inside p = False"

text \<open>
  The bookkeeping behind the runs, for a lock of \<open>m\<close> slots after \<open>k\<close> calls of
  \<^verbatim>\<open>anderson_lock\<close>: the calls are numbered in the order of their fetch-adds, \<open>tk t\<close> is
  the number of the call thread \<open>t\<close> is in, and \<open>r\<close> calls have been released. The threads
  that are not outside have the numbers \<open>r\<close> to \<open>k - 1\<close>, one each, and wait on the slot
  of their number; only number \<open>r\<close> is past its wait loop; \<open>serving_slot\<close> and the flags
  are where that call has put them.
\<close>

definition anderson_queue ::
  "nat set \<Rightarrow> nat \<Rightarrow> (nat \<Rightarrow> anderson_pc) \<Rightarrow> (nat \<Rightarrow> nat) \<Rightarrow> nat \<Rightarrow> bool" where
  "anderson_queue T k pc tk r =
     ({t. pc t \<noteq> Outside} \<subseteq> T \<and> inj_on tk {t. pc t \<noteq> Outside} \<and>
      tk ` {t. pc t \<noteq> Outside} = {r..<k} \<and> r \<le> k)"

definition anderson_places ::
  "nat \<Rightarrow> (nat \<Rightarrow> anderson_pc) \<Rightarrow> (nat \<Rightarrow> nat) \<Rightarrow> nat \<Rightarrow> bool" where
  "anderson_places m pc tk r =
     ((\<forall>t sl. pc t = Waiting sl \<or> pc t = Passed sl \<longrightarrow> sl = tk t mod m) \<and>
      (\<forall>t. (\<exists>sl. pc t = Passed sl) \<or> anderson_inside (pc t) \<longrightarrow> tk t = r) \<and>
      (\<forall>t x. pc t = Releasing1 x \<or> pc t = Releasing2 x \<longrightarrow> x = of_nat (r mod m) + 1))"

definition anderson_cells ::
  "nat \<Rightarrow> nat \<Rightarrow> anderson_lock_t \<Rightarrow> (nat \<Rightarrow> anderson_pc) \<Rightarrow> nat \<Rightarrow> bool" where
  "anderson_cells m k lock pc r =
     (unat (num_slots lock) = m \<and> 0 < m \<and> m \<le> 64 \<and> length (flags lock) = 64 \<and>
      next_slot lock = of_nat k \<and>
      serving_slot lock = of_nat ((if \<exists>t x. pc t = Releasing2 x then Suc r else r) mod m) \<and>
      (\<forall>i<m. flags lock ! i =
         (if (\<forall>t. \<not> anderson_inside (pc t)) \<and> i = r mod m then 1 else 0)))"

definition anderson_tickets ::
  "nat \<Rightarrow> nat set \<Rightarrow> nat \<Rightarrow> anderson_lock_t \<times> (nat \<Rightarrow> anderson_pc) \<Rightarrow> (nat \<Rightarrow> nat) \<Rightarrow> nat \<Rightarrow> bool" where
  "anderson_tickets m T k s tk r =
     (anderson_queue T k (snd s) tk r \<and> anderson_places m (snd s) tk r \<and>
      anderson_cells m k (fst s) (snd s) r)"

section \<open>The spin loops, run alone\<close>

lemmas atomic_defs =
  atomic_load_acquire_def atomic_store_release_def atomic_load_def atomic_store_def
  atomic_xchg_def atomic_cmpxchg_def atomic_fetch_add_def atomic_and_def atomic_or_def
  atomic_fetch_sub_def atomic_add_def atomic_sub_def atomic_inc_def atomic_dec_def
  atomic_cmpxchg_bool_def

text \<open>
  Run alone, a spin loop either leaves at once or never: nothing changes what it waits
  for. Each lemma below gives the value of one loop: the state it returns, or \<open>None\<close>.
\<close>

lemma spin_lock_Some_D:
  assumes "spin_lock lock = Some y"
  shows "spinlock_t.locked lock = 0"
proof (rule spin_lock.raw_induct [where P = "\<lambda>lock y. spinlock_t.locked lock = 0", OF _ assms])
  fix f :: "spinlock_t \<Rightarrow> spinlock_t option" and l y
  assume IH: "\<And>x y. f x = Some y \<Longrightarrow> spinlock_t.locked x = 0"
  assume step: "(case atomic_xchg (spinlock_t.locked l) 1 of
        (old, cell) \<Rightarrow>
          if old \<noteq> 0 then f (l\<lparr>spinlock_t.locked := cell\<rparr>)
          else Some (l\<lparr>spinlock_t.locked := cell\<rparr>)) = Some y"
  show "spinlock_t.locked l = 0"
  proof (rule ccontr)
    assume "spinlock_t.locked l \<noteq> 0"
    with step have "f (l\<lparr>spinlock_t.locked := 1\<rparr>) = Some y"
      by (simp add: atomic_xchg_def)
    from IH [OF this] show False by simp
  qed
qed

lemma spin_lock_eq:
  "spin_lock lock =
     (if spinlock_t.locked lock = 0 then Some (lock\<lparr>spinlock_t.locked := 1\<rparr>) else None)"
proof (cases "spinlock_t.locked lock = 0")
  case True
  then show ?thesis by (subst spin_lock.simps) (simp add: atomic_xchg_def)
next
  case False
  then have "spin_lock lock = None"
    using spin_lock_Some_D [of lock] by (cases "spin_lock lock") auto
  with False show ?thesis by simp
qed

lemma tatas_lock_Some_D:
  assumes "tatas_lock lock = Some y"
  shows "tatas_lock_t.locked lock = 0"
  by (rule tatas_lock.raw_induct [where P = "\<lambda>lock y. tatas_lock_t.locked lock = 0", OF _ assms])
     (auto simp: atomic_xchg_def atomic_load_def split: if_splits)

lemma tatas_lock_eq:
  "tatas_lock lock =
     (if tatas_lock_t.locked lock = 0 then Some (lock\<lparr>tatas_lock_t.locked := 1\<rparr>) else None)"
proof (cases "tatas_lock_t.locked lock = 0")
  case True
  then show ?thesis by (subst tatas_lock.simps) (simp add: atomic_xchg_def atomic_load_def)
next
  case False
  then have "tatas_lock lock = None"
    using tatas_lock_Some_D [of lock] by (cases "tatas_lock lock") auto
  with False show ?thesis by simp
qed

lemma ticket_lock_wait_Some_D:
  assumes "ticket_lock_wait lock t = Some y"
  shows "serving lock = t"
  by (rule ticket_lock_wait.raw_induct [where P = "\<lambda>lock t y. serving lock = t", OF _ assms])
     (auto simp: atomic_load_acquire_def split: if_splits)

lemma ticket_lock_wait_eq:
  "ticket_lock_wait lock t = (if serving lock = t then Some lock else None)"
proof (cases "serving lock = t")
  case True
  then show ?thesis by (subst ticket_lock_wait.simps) (simp add: atomic_load_acquire_def)
next
  case False
  then have "ticket_lock_wait lock t = None"
    using ticket_lock_wait_Some_D [of lock t] by (cases "ticket_lock_wait lock t") auto
  with False show ?thesis by simp
qed

lemma ticket_lock_eq:
  "ticket_lock lock =
     (if serving lock = next_ticket lock then Some (lock\<lparr>next_ticket := next_ticket lock + 1\<rparr>)
      else None)"
  by (simp add: ticket_lock_def atomic_fetch_add_def ticket_lock_wait_eq)

lemma anderson_lock_wait_Some_D:
  assumes "anderson_lock_wait lock s = Some y"
  shows "flags lock ! s \<noteq> 0"
  by (rule anderson_lock_wait.raw_induct [where P = "\<lambda>lock s y. flags lock ! s \<noteq> 0", OF _ assms])
     (auto simp: atomic_load_acquire_def split: if_splits)

lemma anderson_lock_wait_eq:
  "anderson_lock_wait lock s = (if flags lock ! s = 0 then None else Some lock)"
proof (cases "flags lock ! s = 0")
  case True
  then have "anderson_lock_wait lock s = None"
    using anderson_lock_wait_Some_D [of lock s] by (cases "anderson_lock_wait lock s") auto
  with True show ?thesis by simp
next
  case False
  then show ?thesis by (subst anderson_lock_wait.simps) (simp add: atomic_load_acquire_def)
qed

lemma rw_phase_read_lock_Some_D:
  assumes "rw_phase_read_lock lock = Some y"
  shows "writer_active lock = 0 \<and> read_phase lock = 1"
  by (rule rw_phase_read_lock.raw_induct
        [where P = "\<lambda>lock y. writer_active lock = 0 \<and> read_phase lock = 1", OF _ assms])
     (auto simp: atomic_load_def atomic_cmpxchg_bool_def atomic_cmpxchg_def Let_def split: if_splits)

lemma rw_phase_read_lock_eq:
  "rw_phase_read_lock lock =
     (if writer_active lock = 0 \<and> read_phase lock = 1
      then Some (lock\<lparr>rwlock_phase_t.readers := rwlock_phase_t.readers lock + 1\<rparr>) else None)"
proof (cases "writer_active lock = 0 \<and> read_phase lock = 1")
  case True
  then show ?thesis
    by (subst rw_phase_read_lock.simps)
       (simp add: atomic_load_def atomic_cmpxchg_bool_def atomic_cmpxchg_def Let_def)
next
  case False
  then have "rw_phase_read_lock lock = None"
    using rw_phase_read_lock_Some_D [of lock] by (cases "rw_phase_read_lock lock") auto
  with False show ?thesis by auto
qed

lemma rw_phase_write_lock_drain_Some_D:
  assumes "rw_phase_write_lock_drain lock = Some y"
  shows "rwlock_phase_t.readers lock = 0"
  by (rule rw_phase_write_lock_drain.raw_induct
        [where P = "\<lambda>lock y. rwlock_phase_t.readers lock = 0", OF _ assms])
     (auto simp: atomic_load_def split: if_splits)

lemma rw_phase_write_lock_drain_eq:
  "rw_phase_write_lock_drain lock =
     (if rwlock_phase_t.readers lock = 0 then Some lock else None)"
proof (cases "rwlock_phase_t.readers lock = 0")
  case True
  then show ?thesis by (subst rw_phase_write_lock_drain.simps) (simp add: atomic_load_def)
next
  case False
  then have "rw_phase_write_lock_drain lock = None"
    using rw_phase_write_lock_drain_Some_D [of lock]
    by (cases "rw_phase_write_lock_drain lock") auto
  with False show ?thesis by simp
qed

lemma rw_phase_write_lock_activate_Some_D:
  assumes "rw_phase_write_lock_activate lock = Some y"
  shows "writer_active lock = 0"
proof (rule rw_phase_write_lock_activate.raw_induct
         [where P = "\<lambda>lock y. writer_active lock = 0", OF _ assms])
  fix f :: "rwlock_phase_t \<Rightarrow> rwlock_phase_t option" and l y
  assume IH: "\<And>x y. f x = Some y \<Longrightarrow> writer_active x = 0"
  assume step: "(case atomic_xchg (writer_active l) 1 of
        (old, cell) \<Rightarrow>
          if old \<noteq> 0 then f (l\<lparr>writer_active := cell\<rparr>)
          else Some (l\<lparr>writer_active := cell\<rparr>)) = Some y"
  show "writer_active l = 0"
  proof (rule ccontr)
    assume "writer_active l \<noteq> 0"
    with step have "f (l\<lparr>writer_active := 1\<rparr>) = Some y"
      by (simp add: atomic_xchg_def)
    from IH [OF this] show False by simp
  qed
qed

lemma rw_phase_write_lock_activate_eq:
  "rw_phase_write_lock_activate lock =
     (if writer_active lock = 0 then Some (lock\<lparr>writer_active := 1\<rparr>) else None)"
proof (cases "writer_active lock = 0")
  case True
  then show ?thesis by (subst rw_phase_write_lock_activate.simps) (simp add: atomic_xchg_def)
next
  case False
  then have "rw_phase_write_lock_activate lock = None"
    using rw_phase_write_lock_activate_Some_D [of lock]
    by (cases "rw_phase_write_lock_activate lock") auto
  with False show ?thesis by simp
qed

lemma rw_phase_write_lock_eq:
  "rw_phase_write_lock lock =
     (if rwlock_phase_t.readers lock = 0 \<and> writer_active lock = 0
      then Some (lock\<lparr>read_phase := 0, writer_active := 1\<rparr>) else None)"
  by (simp add: rw_phase_write_lock_def Let_def atomic_inc_def atomic_dec_def atomic_add_def
        atomic_sub_def atomic_fetch_add_def atomic_store_def rw_phase_write_lock_drain_eq
        rw_phase_write_lock_activate_eq)

lemma mcs_lock_wait_Some_D:
  assumes "mcs_lock_wait nodes node = Some y"
  shows "mcs_node_t.locked (nodes node) = 0"
  by (rule mcs_lock_wait.raw_induct
        [where P = "\<lambda>nodes node y. mcs_node_t.locked (nodes node) = 0", OF _ assms])
     (auto simp: atomic_load_acquire_def split: if_splits)

lemma mcs_lock_wait_eq:
  "mcs_lock_wait nodes node =
     (if mcs_node_t.locked (nodes node) = 0 then Some nodes else None)"
proof (cases "mcs_node_t.locked (nodes node) = 0")
  case True
  then show ?thesis by (subst mcs_lock_wait.simps) (simp add: atomic_load_acquire_def)
next
  case False
  then have "mcs_lock_wait nodes node = None"
    using mcs_lock_wait_Some_D [of nodes node] by (cases "mcs_lock_wait nodes node") auto
  with False show ?thesis by simp
qed

lemma mcs_unlock_wait_Some_D:
  assumes "mcs_unlock_wait nodes node = Some y"
  shows "mcs_node_t.next (nodes node) \<noteq> NULL"
  by (rule mcs_unlock_wait.raw_induct
        [where P = "\<lambda>nodes node y. mcs_node_t.next (nodes node) \<noteq> NULL", OF _ assms])
     (auto simp: atomic_load_def Let_def split: if_splits)

lemma mcs_unlock_wait_eq:
  "mcs_unlock_wait nodes node =
     (if mcs_node_t.next (nodes node) = NULL then None else Some (mcs_node_t.next (nodes node)))"
proof (cases "mcs_node_t.next (nodes node) = NULL")
  case True
  then have "mcs_unlock_wait nodes node = None"
    using mcs_unlock_wait_Some_D [of nodes node] by (cases "mcs_unlock_wait nodes node") auto
  with True show ?thesis by simp
next
  case False
  then show ?thesis by (subst mcs_unlock_wait.simps) (simp add: atomic_load_def Let_def)
qed

lemma clh_lock_wait_Some_D:
  assumes "clh_lock_wait nodes p = Some y"
  shows "\<forall>nd. clh_deref nodes p = Inr nd \<longrightarrow> clh_node_t.locked nd = 0"
  by (rule clh_lock_wait.raw_induct
        [where P = "\<lambda>nodes p y. \<forall>nd. clh_deref nodes p = Inr nd \<longrightarrow> clh_node_t.locked nd = 0",
         OF _ assms])
     (auto simp: atomic_load_acquire_def split: if_splits sum.splits)

lemma clh_lock_wait_eq:
  "clh_lock_wait nodes p =
     (case clh_deref nodes p of
        Inl f \<Rightarrow> Some (Inl f)
      | Inr nd \<Rightarrow> if clh_node_t.locked nd = 0 then Some (Inr nodes) else None)"
proof (cases "clh_deref nodes p")
  case (Inl f)
  then show ?thesis by (subst clh_lock_wait.simps) simp
next
  case (Inr nd)
  show ?thesis
  proof (cases "clh_node_t.locked nd = 0")
    case True
    with Inr show ?thesis by (subst clh_lock_wait.simps) (simp add: atomic_load_acquire_def)
  next
    case False
    then have "clh_lock_wait nodes p = None"
      using clh_lock_wait_Some_D [of nodes p] Inr by (cases "clh_lock_wait nodes p") auto
    with False Inr show ?thesis by simp
  qed
qed

lemma rw_read_lock_Some_D:
  assumes "rw_read_lock lock = Some y"
  shows "writer lock = 0"
  by (rule rw_read_lock.raw_induct [where P = "\<lambda>lock y. writer lock = 0", OF _ assms])
     (auto simp: atomic_load_def atomic_cmpxchg_bool_def atomic_cmpxchg_def Let_def split: if_splits)

lemma rw_read_lock_eq:
  "rw_read_lock lock =
     (if writer lock = 0 then Some (lock\<lparr>rwlock_t.readers := rwlock_t.readers lock + 1\<rparr>)
      else None)"
proof (cases "writer lock = 0")
  case True
  then show ?thesis
    by (subst rw_read_lock.simps)
       (simp add: atomic_load_def atomic_cmpxchg_bool_def atomic_cmpxchg_def Let_def)
next
  case False
  then have "rw_read_lock lock = None"
    using rw_read_lock_Some_D [of lock] by (cases "rw_read_lock lock") auto
  with False show ?thesis by simp
qed

lemma rw_write_lock_announce_Some_D:
  assumes "rw_write_lock_announce lock = Some y"
  shows "writer lock = 0"
proof (rule rw_write_lock_announce.raw_induct [where P = "\<lambda>lock y. writer lock = 0", OF _ assms])
  fix f :: "rwlock_t \<Rightarrow> rwlock_t option" and l y
  assume IH: "\<And>x y. f x = Some y \<Longrightarrow> writer x = 0"
  assume step: "(case atomic_xchg (writer l) 1 of
        (old, cell) \<Rightarrow>
          if old \<noteq> 0 then f (l\<lparr>writer := cell\<rparr>)
          else Some (l\<lparr>writer := cell\<rparr>)) = Some y"
  show "writer l = 0"
  proof (rule ccontr)
    assume "writer l \<noteq> 0"
    with step have "f (l\<lparr>writer := 1\<rparr>) = Some y"
      by (simp add: atomic_xchg_def)
    from IH [OF this] show False by simp
  qed
qed

lemma rw_write_lock_announce_eq:
  "rw_write_lock_announce lock = (if writer lock = 0 then Some (lock\<lparr>writer := 1\<rparr>) else None)"
proof (cases "writer lock = 0")
  case True
  then show ?thesis by (subst rw_write_lock_announce.simps) (simp add: atomic_xchg_def)
next
  case False
  then have "rw_write_lock_announce lock = None"
    using rw_write_lock_announce_Some_D [of lock] by (cases "rw_write_lock_announce lock") auto
  with False show ?thesis by simp
qed

lemma rw_write_lock_drain_Some_D:
  assumes "rw_write_lock_drain lock = Some y"
  shows "rwlock_t.readers lock = 0"
  by (rule rw_write_lock_drain.raw_induct [where P = "\<lambda>lock y. rwlock_t.readers lock = 0", OF _ assms])
     (auto simp: atomic_load_def split: if_splits)

lemma rw_write_lock_drain_eq:
  "rw_write_lock_drain lock = (if rwlock_t.readers lock = 0 then Some lock else None)"
proof (cases "rwlock_t.readers lock = 0")
  case True
  then show ?thesis by (subst rw_write_lock_drain.simps) (simp add: atomic_load_def)
next
  case False
  then have "rw_write_lock_drain lock = None"
    using rw_write_lock_drain_Some_D [of lock] by (cases "rw_write_lock_drain lock") auto
  with False show ?thesis by simp
qed

lemma rw_write_lock_eq:
  "rw_write_lock lock =
     (if writer lock = 0 \<and> rwlock_t.readers lock = 0 then Some (lock\<lparr>writer := 1\<rparr>) else None)"
  by (simp add: rw_write_lock_def rw_write_lock_announce_eq rw_write_lock_drain_eq)

section \<open>Anderson lock: what the operations compute\<close>

text \<open>The loop of \<^verbatim>\<open>anderson_init\<close> keeps the array's length and writes the slots from \<open>i\<close> on.\<close>

lemma anderson_init_loop_length: "length (anderson_init_loop i n fl) = length fl"
proof (induction i n fl rule: anderson_init_loop.induct)
  case (1 i n fl)
  show ?case
  proof (cases "i < unat n")
    case True
    with "1" show ?thesis by (subst anderson_init_loop.simps) simp
  next
    case False
    then show ?thesis by (subst anderson_init_loop.simps) simp
  qed
qed

lemma anderson_init_loop_nth:
  "j < length fl \<Longrightarrow>
   anderson_init_loop i n fl ! j =
     (if i \<le> j \<and> j < unat n then (if j = 0 then 1 else 0) else fl ! j)"
proof (induction i n fl rule: anderson_init_loop.induct)
  case (1 i n fl)
  show ?case
  proof (cases "i < unat n")
    case True
    have "anderson_init_loop i n fl ! j =
          anderson_init_loop (i + 1) n (fl[i := (if i = 0 then 1 else 0)]) ! j"
      using True by (subst anderson_init_loop.simps) (simp add: atomic_store_def)
    also have "\<dots> = (if i + 1 \<le> j \<and> j < unat n then (if j = 0 then 1 else 0)
                      else fl[i := (if i = 0 then 1 else 0)] ! j)"
      using "1.IH" [OF True] "1.prems" by (simp add: atomic_store_def)
    also have "\<dots> = (if i \<le> j \<and> j < unat n then (if j = 0 then 1 else 0) else fl ! j)"
      using True "1.prems" by (auto simp: nth_list_update)
    finally show ?thesis .
  next
    case False
    then show ?thesis by (subst anderson_init_loop.simps) auto
  qed
qed

lemma anderson_init_fields:
  "num_slots (anderson_init lock n) = (if 64 < n then 64 else n)"
  "next_slot (anderson_init lock n) = 0"
  "serving_slot (anderson_init lock n) = 0"
  "length (flags (anderson_init lock n)) = length (flags lock)"
  by (simp_all add: anderson_init_def Let_def atomic_store_def ANDERSON_LOCK_MAX_THREADS_def
        anderson_init_loop_length word_less_nat_alt)

lemma anderson_init_flags:
  "j < length (flags lock) \<Longrightarrow>
   flags (anderson_init lock n) ! j =
     (if j < unat (num_slots (anderson_init lock n)) then (if j = 0 then 1 else 0)
      else flags lock ! j)"
  by (simp add: anderson_init_def Let_def atomic_store_def anderson_init_loop_nth)

lemma unat_num_slots_init_le:
  "unat (num_slots (anderson_init lock n)) \<le> 64"
  by (simp add: anderson_init_fields word_less_nat_alt)

text \<open>What \<^verbatim>\<open>anderson_lock\<close> and \<^verbatim>\<open>anderson_unlock\<close> compute, with the loop's value put in.\<close>

lemma unat_mod_less: "m \<noteq> 0 \<Longrightarrow> unat (w mod m :: u32) < unat m"
  by (simp add: unat_mod unat_gt_0)

lemma anderson_lock_eq:
  "num_slots lock \<noteq> 0 \<Longrightarrow> unat (num_slots lock) \<le> 64 \<Longrightarrow>
   anderson_lock lock =
     (if flags lock ! unat (next_slot lock mod num_slots lock) = 0 then None
      else Some (Inr (lock\<lparr>next_slot := next_slot lock + 1,
             flags := (flags lock)[unat (next_slot lock mod num_slots lock) := 0]\<rparr>)))"
  using unat_mod_less [of "num_slots lock" "next_slot lock"]
  by (simp add: anderson_lock_def Let_def atomic_fetch_add_def atomic_store_release_def
        anderson_lock_wait_eq ANDERSON_LOCK_MAX_THREADS_def)

lemma anderson_unlock_eq:
  "num_slots lock \<noteq> 0 \<Longrightarrow> unat (num_slots lock) \<le> 64 \<Longrightarrow>
   anderson_unlock lock =
     Inr (lock\<lparr>serving_slot := (serving_slot lock + 1) mod num_slots lock,
            flags := (flags lock)[unat ((serving_slot lock + 1) mod num_slots lock) := 1]\<rparr>)"
  using unat_mod_less [of "num_slots lock" "serving_slot lock + 1"]
  by (simp add: anderson_unlock_def Let_def atomic_load_def atomic_store_def
        atomic_store_release_def ANDERSON_LOCK_MAX_THREADS_def)

text \<open>Words and their numbers, and two facts on lists that are updated in place.\<close>

lemma unat_of_nat_u32: "k < 2 ^ 32 \<Longrightarrow> unat (of_nat k :: u32) = k"
  by (simp add: unat_of_nat)

lemma next_serving_slot:
  assumes "0 < unat ns" "unat ns \<le> 64" "i < unat ns"
  shows "((of_nat i :: u32) + 1) mod ns = of_nat ((i + 1) mod unat ns)"
proof -
  have s: "(of_nat i :: u32) + 1 = of_nat (Suc i)" by simp
  have "unat (of_nat (Suc i) :: u32) = Suc i"
    using assms by (intro unat_of_nat_u32) simp
  then have l: "unat (((of_nat i :: u32) + 1) mod ns) = (i + 1) mod unat ns"
    by (simp only: s unat_mod Suc_eq_plus1)
  have "(i + 1) mod unat ns < 2 ^ 32"
    using assms by (intro less_trans [OF mod_less_divisor]) simp_all
  then have r: "unat (of_nat ((i + 1) mod unat ns) :: u32) = (i + 1) mod unat ns"
    by (rule unat_of_nat_u32)
  show ?thesis using l r by (simp add: word_unat_eq_iff)
qed

text \<open>
  The slot of call number \<open>k\<close> is \<open>k mod m\<close> as long as the 32-bit counter has not
  wrapped, and for ever when the slot count divides \<open>2^32\<close>.
\<close>

lemma slot_of_ticket:
  assumes "k < 2 ^ 32 \<or> unat ns dvd 2 ^ 32"
  shows "unat ((of_nat k :: u32) mod ns) = k mod unat ns"
proof -
  have "unat ((of_nat k :: u32) mod ns) = (k mod 2 ^ 32) mod unat ns"
    by (simp add: unat_mod unat_of_nat)
  also have "\<dots> = k mod unat ns"
    using assms by (auto simp: mod_mod_cancel)
  finally show ?thesis .
qed

lemma same_slot_same_ticket:
  fixes a r m :: nat
  assumes "r \<le> a" "a < r + m" "a mod m = r mod m"
  shows "a = r"
proof -
  have "(a - r) mod m = 0"
    using assms(1,3) by (metis mod_eq_dvd_iff_nat dvd_imp_mod_0)
  moreover have "a - r < m" using assms(1,2) by simp
  ultimately show ?thesis using assms(1) by simp
qed

lemma list_update_same:
  "xs ! i = x \<Longrightarrow> xs[i := x] = xs"
  by auto

lemma replicate_update_0:
  "(replicate n x)[i := x] = replicate n x"
  by (cases "i < n") (simp_all add: list_update_same list_update_beyond)

text \<open>
  \<^verbatim>\<open>anderson_init\<close> on a zeroed lock with two and with three slots, and the state
  \<open>anderson_after s0 0\<close>, which is the state \<open>s0\<close> of \<^verbatim>\<open>anderson_init\<close> itself.
\<close>

lemma anderson_init_2:
  "anderson_init \<lparr>next_slot = 0, serving_slot = 0, flags = replicate 64 0, num_slots = 0\<rparr> 2 =
     \<lparr>next_slot = 0, serving_slot = 0, flags = (replicate 64 0)[0 := 1], num_slots = 2\<rparr>"
  by (simp add: anderson_init_def Let_def atomic_store_def ANDERSON_LOCK_MAX_THREADS_def
        anderson_init_loop.simps list_update_same_conv)

lemma anderson_init_3:
  "anderson_init \<lparr>next_slot = 0, serving_slot = 0, flags = replicate 64 0, num_slots = 0\<rparr> 3 =
     \<lparr>next_slot = 0, serving_slot = 0, flags = (replicate 64 0)[0 := 1], num_slots = 3\<rparr>"
  by (simp add: anderson_init_def Let_def atomic_store_def ANDERSON_LOCK_MAX_THREADS_def
        anderson_init_loop.simps list_update_same)

lemma anderson_after_0:
  assumes "length (flags lock) = 64" "n \<noteq> 0"
  shows "anderson_after (anderson_init lock n) 0 = anderson_init lock n"
proof -
  have "0 < unat (num_slots (anderson_init lock n))"
    using assms(2) by (simp add: anderson_init_fields unat_gt_0)
  then have "flags (anderson_init lock n) ! 0 = 1"
    using anderson_init_flags [of 0 lock n] assms(1) by simp
  then show ?thesis
    using assms(1)
    by (simp add: anderson_after_def anderson_init_fields list_update_same_conv)
qed

section \<open>Anderson lock: the invariant of the interleaved runs\<close>

text \<open>
  The calls of \<^verbatim>\<open>anderson_lock\<close> that have started are numbered from 0 in the order
  of their fetch-adds; \<open>tk t\<close> is the number of the call thread \<open>t\<close> is in, and \<open>r\<close> the
  number of calls that have been released. The lemmas of this section show that every
  step of a thread keeps \<open>anderson_tickets\<close>, as long as the call numbers still
  determine the slots (\<open>slot_of_ticket\<close>) and there are no more threads than slots.
\<close>

lemma active_upd_in:
  "X \<noteq> Outside \<Longrightarrow> {u. (pc(t := X)) u \<noteq> Outside} = insert t {u. pc u \<noteq> Outside}"
  by auto

lemma active_upd_out:
  "{u. (pc(t := Outside)) u \<noteq> Outside} = {u. pc u \<noteq> Outside} - {t}"
  by auto

lemma anderson_queueD:
  assumes "anderson_queue T k pc tk r"
  shows "{t. pc t \<noteq> Outside} \<subseteq> T" and "inj_on tk {t. pc t \<noteq> Outside}"
    and "tk ` {t. pc t \<noteq> Outside} = {r..<k}" and "r \<le> k"
  using assms by (simp_all add: anderson_queue_def)

lemma anderson_placesD:
  assumes "anderson_places m pc tk r"
  shows "\<And>t sl. pc t = Waiting sl \<Longrightarrow> sl = tk t mod m"
    and "\<And>t sl. pc t = Passed sl \<Longrightarrow> sl = tk t mod m"
    and "\<And>t sl. pc t = Passed sl \<Longrightarrow> tk t = r"
    and "\<And>t. anderson_inside (pc t) \<Longrightarrow> tk t = r"
    and "\<And>t x. pc t = Releasing1 x \<Longrightarrow> x = of_nat (r mod m) + 1"
    and "\<And>t x. pc t = Releasing2 x \<Longrightarrow> x = of_nat (r mod m) + 1"
  using assms unfolding anderson_places_def by blast+

lemma anderson_placesI:
  assumes "\<And>t sl. pc t = Waiting sl \<Longrightarrow> sl = tk t mod m"
    and "\<And>t sl. pc t = Passed sl \<Longrightarrow> sl = tk t mod m"
    and "\<And>t sl. pc t = Passed sl \<Longrightarrow> tk t = r"
    and "\<And>t. anderson_inside (pc t) \<Longrightarrow> tk t = r"
    and "\<And>t x. pc t = Releasing1 x \<Longrightarrow> x = of_nat (r mod m) + 1"
    and "\<And>t x. pc t = Releasing2 x \<Longrightarrow> x = of_nat (r mod m) + 1"
  shows "anderson_places m pc tk r"
  unfolding anderson_places_def using assms by blast

lemma anderson_cellsD:
  assumes "anderson_cells m k lock pc r"
  shows "unat (num_slots lock) = m" and "0 < m" and "m \<le> 64" and "length (flags lock) = 64"
    and "next_slot lock = of_nat k"
    and "serving_slot lock = of_nat ((if \<exists>t x. pc t = Releasing2 x then Suc r else r) mod m)"
    and "\<And>i. i < m \<Longrightarrow> flags lock ! i =
           (if (\<forall>t. \<not> anderson_inside (pc t)) \<and> i = r mod m then 1 else 0)"
  using assms by (simp_all add: anderson_cells_def)

lemma anderson_queue_window:
  assumes "anderson_queue T k pc tk r" "finite T" "card T \<le> m"
  shows "k - r \<le> m"
proof -
  let ?A = "{t. pc t \<noteq> Outside}"
  note d = anderson_queueD [OF assms(1)]
  have "card {r..<k} = card ?A" using d(2,3) by (metis card_image)
  also have "\<dots> \<le> card T" using d(1) assms(2) by (rule card_mono [rotated])
  finally show ?thesis using assms(3) by simp
qed

text \<open>Only one thread can be past its wait loop.\<close>

lemma anderson_head_unique:
  assumes "anderson_queue T k pc tk r" "anderson_places m pc tk r"
    and "(\<exists>sl. pc t = Passed sl) \<or> anderson_inside (pc t)"
    and "(\<exists>sl. pc u = Passed sl) \<or> anderson_inside (pc u)"
  shows "u = t"
proof -
  let ?A = "{t. pc t \<noteq> Outside}"
  note q = anderson_queueD [OF assms(1)] and p = anderson_placesD [OF assms(2)]
  have "t \<in> ?A" "u \<in> ?A" using assms(3,4) by auto
  moreover have "tk t = tk u" using p(3,4) assms(3,4) by metis
  ultimately show ?thesis using q(2) by (auto dest: inj_onD)
qed


lemma inside_upd_other:
  "\<not> anderson_inside X \<Longrightarrow> \<not> anderson_inside (pc t) \<Longrightarrow>
   (\<forall>u. \<not> anderson_inside ((pc(t := X)) u)) = (\<forall>u. \<not> anderson_inside (pc u))"
  by (metis fun_upd_apply)

lemma inside_upd_same:
  "anderson_inside X \<Longrightarrow> anderson_inside (pc t) \<Longrightarrow>
   (\<forall>u. \<not> anderson_inside ((pc(t := X)) u)) = (\<forall>u. \<not> anderson_inside (pc u))"
  by (metis fun_upd_apply)

lemma releasing2_upd_other:
  "(\<forall>x. X \<noteq> Releasing2 x) \<Longrightarrow> (\<forall>x. pc t \<noteq> Releasing2 x) \<Longrightarrow>
   (\<exists>u x. (pc(t := X)) u = Releasing2 x) = (\<exists>u x. pc u = Releasing2 x)"
  by (metis fun_upd_apply)

lemma anderson_tickets_fetch_add:
  assumes q: "anderson_queue T k pc tk r" and p: "anderson_places m pc tk r"
    and c: "anderson_cells m k lock pc r"
    and t: "t \<in> T" "pc t = Outside" and K: "k < 2 ^ 32 \<or> m dvd 2 ^ 32"
  defines "pc' \<equiv> pc(t := Waiting (unat (next_slot lock mod num_slots lock)))"
  shows "anderson_queue T (Suc k) pc' (tk(t := k)) r"
    and "anderson_places m pc' (tk(t := k)) r"
    and "anderson_cells m (Suc k) (lock\<lparr>next_slot := next_slot lock + 1\<rparr>) pc' r"
proof -
  let ?A = "{u. pc u \<noteq> Outside}"
  note qd = anderson_queueD [OF q] and pd = anderson_placesD [OF p] and cd = anderson_cellsD [OF c]
  have A': "{u. pc' u \<noteq> Outside} = insert t ?A"
    unfolding pc'_def by (rule active_upd_in) simp
  have tA: "t \<notin> ?A" using t(2) by simp
  have kA: "k \<notin> tk ` ?A" using qd(3) by simp
  have inj: "inj_on (tk(t := k)) (insert t ?A)"
    using qd(2) tA kA by (auto simp: inj_on_def)
  have "(tk(t := k)) ` insert t ?A = insert k (tk ` ?A)"
    using tA by (auto simp: image_iff)
  also have "\<dots> = {r..<Suc k}" using qd(3,4) by auto
  finally have img: "(tk(t := k)) ` insert t ?A = {r..<Suc k}" .
  show "anderson_queue T (Suc k) pc' (tk(t := k)) r"
    using qd(1,4) t(1) inj img by (simp add: anderson_queue_def A')
  have slot: "unat (next_slot lock mod num_slots lock) = k mod m"
    using slot_of_ticket [of k "num_slots lock"] K cd(1,5) by simp
  show "anderson_places m pc' (tk(t := k)) r"
    unfolding pc'_def
    by (rule anderson_placesI)
       (auto simp: slot split: if_splits
          dest: pd(1) pd(2) pd(3) pd(4) pd(5) pd(6))
  have ins: "(\<forall>u. \<not> anderson_inside (pc' u)) = (\<forall>u. \<not> anderson_inside (pc u))"
    unfolding pc'_def using t(2) by (intro inside_upd_other) simp_all
  have rel: "(\<exists>u x. pc' u = Releasing2 x) = (\<exists>u x. pc u = Releasing2 x)"
    unfolding pc'_def using t(2) by (intro releasing2_upd_other) simp_all
  show "anderson_cells m (Suc k) (lock\<lparr>next_slot := next_slot lock + 1\<rparr>) pc' r"
    using cd by (simp add: anderson_cells_def ins rel)
qed


lemma active_upd_same:
  "pc t \<noteq> Outside \<Longrightarrow> X \<noteq> Outside \<Longrightarrow>
   {u. (pc(t := X)) u \<noteq> Outside} = {u. pc u \<noteq> Outside}"
  by auto

lemma anderson_tickets_pass:
  assumes q: "anderson_queue T k pc tk r" and p: "anderson_places m pc tk r"
    and c: "anderson_cells m k lock pc r"
    and t: "pc t = Waiting sl" "flags lock ! sl \<noteq> 0"
    and T: "finite T" "card T \<le> m"
  defines "pc' \<equiv> pc(t := Passed sl)"
  shows "anderson_queue T k pc' tk r"
    and "anderson_places m pc' tk r"
    and "anderson_cells m k lock pc' r"
proof -
  note qd = anderson_queueD [OF q] and pd = anderson_placesD [OF p] and cd = anderson_cellsD [OF c]
  have A': "{u. pc' u \<noteq> Outside} = {u. pc u \<noteq> Outside}"
    unfolding pc'_def using t(1) by (intro active_upd_same) simp_all
  show "anderson_queue T k pc' tk r"
    using q by (simp add: anderson_queue_def A')
  have sl: "sl = tk t mod m" using pd(1) [OF t(1)] .
  have slm: "sl < m" unfolding sl using cd(2) by (rule mod_less_divisor)
  have at: "sl = r mod m"
  proof (rule ccontr)
    assume "sl \<noteq> r mod m"
    then have "flags lock ! sl = 0" using cd(7) [OF slm] by simp
    with t(2) show False by simp
  qed
  have "t \<in> {u. pc u \<noteq> Outside}" using t(1) by simp
  then have "tk t \<in> tk ` {u. pc u \<noteq> Outside}" by (rule imageI)
  then have in_window: "tk t \<in> {r..<k}" unfolding qd(3) .
  have win: "k - r \<le> m" using anderson_queue_window [OF q T] .
  have lo: "r \<le> tk t" using in_window by simp
  have "tk t < k" using in_window by simp
  then have hi: "tk t < r + m" using win by linarith
  have same: "tk t mod m = r mod m" using sl at by simp
  have head: "tk t = r" using lo hi same by (rule same_slot_same_ticket)
  have p1: "\<And>u s. pc' u = Waiting s \<Longrightarrow> s = tk u mod m"
    unfolding pc'_def using pd(1) by (simp split: if_splits)
  have p2: "\<And>u s. pc' u = Passed s \<Longrightarrow> s = tk u mod m"
    unfolding pc'_def using pd(2) sl by (simp split: if_splits)
  have p3: "\<And>u s. pc' u = Passed s \<Longrightarrow> tk u = r"
    unfolding pc'_def using pd(3) head by (simp split: if_splits)
  have p4: "\<And>u. anderson_inside (pc' u) \<Longrightarrow> tk u = r"
    unfolding pc'_def using pd(4) by (simp split: if_splits)
  have p5: "\<And>u x. pc' u = Releasing1 x \<Longrightarrow> x = of_nat (r mod m) + 1"
    unfolding pc'_def using pd(5) by (simp split: if_splits)
  have p6: "\<And>u x. pc' u = Releasing2 x \<Longrightarrow> x = of_nat (r mod m) + 1"
    unfolding pc'_def using pd(6) by (simp split: if_splits)
  show "anderson_places m pc' tk r"
    using p1 p2 p3 p4 p5 p6 by (rule anderson_placesI)
  have ins: "(\<forall>u. \<not> anderson_inside (pc' u)) = (\<forall>u. \<not> anderson_inside (pc u))"
    unfolding pc'_def using t(1) by (intro inside_upd_other) simp_all
  have rel: "(\<exists>u x. pc' u = Releasing2 x) = (\<exists>u x. pc u = Releasing2 x)"
    unfolding pc'_def using t(1) by (intro releasing2_upd_other) simp_all
  show "anderson_cells m k lock pc' r"
    using c by (simp add: anderson_cells_def ins rel)
qed

lemma anderson_tickets_clear:
  assumes q: "anderson_queue T k pc tk r" and p: "anderson_places m pc tk r"
    and c: "anderson_cells m k lock pc r"
    and t: "pc t = Passed sl"
  defines "pc' \<equiv> pc(t := Holding)"
  shows "anderson_queue T k pc' tk r"
    and "anderson_places m pc' tk r"
    and "anderson_cells m k (lock\<lparr>flags := (flags lock)[sl := 0]\<rparr>) pc' r"
proof -
  note qd = anderson_queueD [OF q] and pd = anderson_placesD [OF p] and cd = anderson_cellsD [OF c]
  have A': "{u. pc' u \<noteq> Outside} = {u. pc u \<noteq> Outside}"
    unfolding pc'_def using t by (intro active_upd_same) simp_all
  show "anderson_queue T k pc' tk r"
    using q by (simp add: anderson_queue_def A')
  have head: "tk t = r" using pd(3) [OF t] .
  have sl: "sl = r mod m" using pd(2) [OF t] head by simp
  show "anderson_places m pc' tk r"
    unfolding pc'_def
    by (rule anderson_placesI)
       (auto simp: head split: if_splits
          dest: pd(1) pd(2) pd(3) pd(4) pd(5) pd(6))
  have ins: "\<not> (\<forall>u. \<not> anderson_inside (pc' u))"
    unfolding pc'_def by (auto intro: exI [of _ t])
  have rel: "(\<exists>u x. pc' u = Releasing2 x) = (\<exists>u x. pc u = Releasing2 x)"
    unfolding pc'_def using t by (intro releasing2_upd_other) simp_all
  have "\<And>i. i < m \<Longrightarrow> (flags lock)[sl := 0] ! i = 0"
  proof -
    fix i assume i: "i < m"
    show "(flags lock)[sl := 0] ! i = 0"
    proof (cases "i = sl")
      case True
      then show ?thesis using i cd(3,4) by simp
    next
      case False
      then show ?thesis using cd(7) [OF i] sl by simp
    qed
  qed
  then show "anderson_cells m k (lock\<lparr>flags := (flags lock)[sl := 0]\<rparr>) pc' r"
    using cd(1-6) ins by (simp add: anderson_cells_def rel)
qed

lemma anderson_tickets_load_serving:
  assumes q: "anderson_queue T k pc tk r" and p: "anderson_places m pc tk r"
    and c: "anderson_cells m k lock pc r"
    and t: "pc t = Holding"
  defines "pc' \<equiv> pc(t := Releasing1 (serving_slot lock + 1))"
  shows "anderson_queue T k pc' tk r"
    and "anderson_places m pc' tk r"
    and "anderson_cells m k lock pc' r"
proof -
  note qd = anderson_queueD [OF q] and pd = anderson_placesD [OF p] and cd = anderson_cellsD [OF c]
  have A': "{u. pc' u \<noteq> Outside} = {u. pc u \<noteq> Outside}"
    unfolding pc'_def using t by (intro active_upd_same) simp_all
  show "anderson_queue T k pc' tk r"
    using q by (simp add: anderson_queue_def A')
  have head: "tk t = r" using pd(4) [of t] t by simp
  have no2: "\<And>u x. pc u \<noteq> Releasing2 x"
  proof
    fix u x assume u: "pc u = Releasing2 x"
    have "u = t" using anderson_head_unique [OF q p, of t u] t u by simp
    with t u show False by simp
  qed
  then have srv: "serving_slot lock = of_nat (r mod m)" using cd(6) by simp
  show "anderson_places m pc' tk r"
    unfolding pc'_def
    by (rule anderson_placesI)
       (auto simp: head srv split: if_splits
          dest: pd(1) pd(2) pd(3) pd(4) pd(5) pd(6))
  have ins: "(\<forall>u. \<not> anderson_inside (pc' u)) = (\<forall>u. \<not> anderson_inside (pc u))"
    unfolding pc'_def using t by (intro inside_upd_same) simp_all
  have rel: "(\<exists>u x. pc' u = Releasing2 x) = (\<exists>u x. pc u = Releasing2 x)"
    unfolding pc'_def using t by (intro releasing2_upd_other) simp_all
  show "anderson_cells m k lock pc' r"
    using cd by (simp add: anderson_cells_def ins rel)
qed

lemma anderson_tickets_store_serving:
  assumes q: "anderson_queue T k pc tk r" and p: "anderson_places m pc tk r"
    and c: "anderson_cells m k lock pc r"
    and t: "pc t = Releasing1 x"
  defines "pc' \<equiv> pc(t := Releasing2 x)"
  shows "anderson_queue T k pc' tk r"
    and "anderson_places m pc' tk r"
    and "anderson_cells m k (lock\<lparr>serving_slot := x mod num_slots lock\<rparr>) pc' r"
proof -
  note qd = anderson_queueD [OF q] and pd = anderson_placesD [OF p] and cd = anderson_cellsD [OF c]
  have A': "{u. pc' u \<noteq> Outside} = {u. pc u \<noteq> Outside}"
    unfolding pc'_def using t by (intro active_upd_same) simp_all
  show "anderson_queue T k pc' tk r"
    using q by (simp add: anderson_queue_def A')
  have head: "tk t = r" using pd(4) [of t] t by simp
  have x: "x = of_nat (r mod m) + 1" using pd(5) [OF t] .
  show "anderson_places m pc' tk r"
    unfolding pc'_def
    by (rule anderson_placesI)
       (auto simp: head x split: if_splits
          dest: pd(1) pd(2) pd(3) pd(4) pd(5) pd(6))
  have ins: "(\<forall>u. \<not> anderson_inside (pc' u)) = (\<forall>u. \<not> anderson_inside (pc u))"
    unfolding pc'_def using t by (intro inside_upd_same) simp_all
  have rel: "\<exists>u y. pc' u = Releasing2 y"
    unfolding pc'_def by (auto intro: exI [of _ t])
  have "x mod num_slots lock = of_nat ((r mod m + 1) mod m)"
    using next_serving_slot [of "num_slots lock" "r mod m"] cd(1,2,3) by (simp add: x)
  then have srv: "x mod num_slots lock = of_nat (Suc r mod m)"
    by (simp add: mod_Suc_eq)
  show "anderson_cells m k (lock\<lparr>serving_slot := x mod num_slots lock\<rparr>) pc' r"
    using cd(1-5,7) rel by (simp add: anderson_cells_def ins srv)
qed

lemma anderson_tickets_set_flag:
  assumes q: "anderson_queue T k pc tk r" and p: "anderson_places m pc tk r"
    and c: "anderson_cells m k lock pc r"
    and t: "pc t = Releasing2 x"
  defines "pc' \<equiv> pc(t := Outside)"
  shows "anderson_queue T k pc' tk (Suc r)"
    and "anderson_places m pc' tk (Suc r)"
    and "anderson_cells m k
           (lock\<lparr>flags := (flags lock)[unat (x mod num_slots lock) := 1]\<rparr>) pc' (Suc r)"
proof -
  let ?A = "{u. pc u \<noteq> Outside}"
  note qd = anderson_queueD [OF q] and pd = anderson_placesD [OF p] and cd = anderson_cellsD [OF c]
  have A': "{u. pc' u \<noteq> Outside} = ?A - {t}"
    unfolding pc'_def by (rule active_upd_out)
  have head: "tk t = r" using pd(4) [of t] t by simp
  have tA: "t \<in> ?A" using t by simp
  then have "r \<in> {r..<k}" using qd(3) head by blast
  then have rk: "Suc r \<le> k" by simp
  have "tk ` (?A - {t}) = tk ` ?A - {tk t}"
    using qd(2) tA by (auto dest: inj_onD)
  also have "\<dots> = {Suc r..<k}" using qd(3) head by auto
  finally have img: "tk ` (?A - {t}) = {Suc r..<k}" .
  have "inj_on tk (?A - {t})" using qd(2) by (rule inj_on_diff)
  then show "anderson_queue T k pc' tk (Suc r)"
    using qd(1) img rk by (auto simp: anderson_queue_def A')
  have only: "\<forall>u. u \<noteq> t \<longrightarrow> \<not> anderson_inside (pc u) \<and> (\<forall>s. pc u \<noteq> Passed s)"
  proof (intro allI impI)
    fix u assume "u \<noteq> t"
    then show "\<not> anderson_inside (pc u) \<and> (\<forall>s. pc u \<noteq> Passed s)"
      using anderson_head_unique [OF q p, of t u] t by auto
  qed
  have ins: "\<forall>u. \<not> anderson_inside (pc' u)"
    unfolding pc'_def using only by simp
  have pas: "\<forall>u s. pc' u \<noteq> Passed s"
    unfolding pc'_def using only by simp
  have rel: "\<not> (\<exists>u y. pc' u = Releasing2 y)"
  proof
    assume "\<exists>u y. pc' u = Releasing2 y"
    then obtain u y where "pc' u = Releasing2 y" by blast
    then have "anderson_inside (pc' u)" by simp
    with ins show False by blast
  qed
  have rel1: "\<forall>u y. pc' u \<noteq> Releasing1 y"
  proof (intro allI notI)
    fix u y assume "pc' u = Releasing1 y"
    then have "anderson_inside (pc' u)" by simp
    with ins show False by blast
  qed
  have wait: "\<And>u s. pc' u = Waiting s \<Longrightarrow> s = tk u mod m"
    unfolding pc'_def using pd(1) by (simp split: if_splits)
  show "anderson_places m pc' tk (Suc r)"
    using ins pas rel rel1 wait by (intro anderson_placesI) blast+
  have srv: "serving_slot lock = of_nat (Suc r mod m)"
    using cd(6) t by auto
  have x: "x = of_nat (r mod m) + 1" using pd(6) [OF t] .
  have "x mod num_slots lock = of_nat ((r mod m + 1) mod m)"
    using next_serving_slot [of "num_slots lock" "r mod m"] cd(1,2,3) by (simp add: x)
  then have "x mod num_slots lock = of_nat (Suc r mod m)"
    by (simp add: mod_Suc_eq)
  moreover have "Suc r mod m < 2 ^ 32"
    using cd(2,3) by (intro less_trans [OF mod_less_divisor]) simp_all
  ultimately have ix: "unat (x mod num_slots lock) = Suc r mod m"
    by (simp add: unat_of_nat_u32)
  have zero: "\<And>i. i < m \<Longrightarrow> flags lock ! i = 0"
    using cd(7) t by (auto intro: exI [of _ t])
  have "\<And>i. i < m \<Longrightarrow>
          (flags lock)[Suc r mod m := 1] ! i = (if i = Suc r mod m then 1 else 0)"
    using zero cd(2,3,4) by (simp add: nth_list_update)
  then show "anderson_cells m k
           (lock\<lparr>flags := (flags lock)[unat (x mod num_slots lock) := 1]\<rparr>) pc' (Suc r)"
    using cd(1-5) ins rel srv by (simp add: anderson_cells_def ix)
qed


lemma anderson_tickets_start:
  assumes "length (flags lock0) = 64" "n \<noteq> 0"
  shows "anderson_tickets (unat (num_slots (anderson_init lock0 n))) T 0
           (anderson_init lock0 n, \<lambda>t. Outside) (\<lambda>t. 0) 0"
proof -
  let ?m = "unat (num_slots (anderson_init lock0 n))"
  have m0: "0 < ?m" using assms(2) by (simp add: anderson_init_fields unat_gt_0)
  have m64: "?m \<le> 64" by (rule unat_num_slots_init_le)
  have fl: "\<And>i. i < ?m \<Longrightarrow> flags (anderson_init lock0 n) ! i = (if i = 0 then 1 else 0)"
    using anderson_init_flags [of _ lock0 n] m64 assms(1) by simp
  have "anderson_queue T 0 (\<lambda>t. Outside) (\<lambda>t. 0) 0"
    by (simp add: anderson_queue_def)
  moreover have "anderson_places ?m (\<lambda>t. Outside) (\<lambda>t. 0) 0"
    by (simp add: anderson_places_def)
  moreover have "anderson_cells ?m 0 (anderson_init lock0 n) (\<lambda>t. Outside) 0"
    using m0 m64 fl assms(1) by (simp add: anderson_cells_def anderson_init_fields)
  ultimately show ?thesis by (simp add: anderson_tickets_def)
qed

lemma anderson_tickets_step:
  assumes inv: "anderson_tickets m T k (lock, pc) tk r"
    and T: "finite T" "card T \<le> m" and t: "t \<in> T"
    and st: "anderson_step t (lock, pc) s'"
    and K: "pc t = Outside \<longrightarrow> k < 2 ^ 32 \<or> m dvd 2 ^ 32"
  shows "\<exists>tk' r'. anderson_tickets m T (if pc t = Outside then Suc k else k) s' tk' r'"
proof -
  from inv have q: "anderson_queue T k pc tk r" and p: "anderson_places m pc tk r"
    and c: "anderson_cells m k lock pc r"
    by (simp_all add: anderson_tickets_def)
  from st show ?thesis
  proof (cases rule: anderson_step.cases)
    case (fetch_add old cell)
    then have s': "s' = (lock\<lparr>next_slot := next_slot lock + 1\<rparr>,
        pc(t := Waiting (unat (next_slot lock mod num_slots lock))))"
      by (auto simp: atomic_fetch_add_def)
    from fetch_add K have K': "k < 2 ^ 32 \<or> m dvd 2 ^ 32" by simp
    from anderson_tickets_fetch_add [OF q p c t fetch_add(2) K'] fetch_add(2)
    show ?thesis unfolding s' anderson_tickets_def by (intro exI [of _ "tk(t := k)"] exI [of _ r]) simp
  next
    case (spin my_slot)
    with inv show ?thesis by auto
  next
    case (pass my_slot)
    then have fl: "flags lock ! my_slot \<noteq> 0" by (simp add: atomic_load_acquire_def)
    from anderson_tickets_pass [OF q p c pass(2) fl T] pass(1,2)
    show ?thesis unfolding anderson_tickets_def by (intro exI [of _ tk] exI [of _ r]) simp
  next
    case (clear my_slot)
    from anderson_tickets_clear [OF q p c clear(2)] clear(1,2)
    show ?thesis unfolding anderson_tickets_def
      by (intro exI [of _ tk] exI [of _ r]) (simp add: atomic_store_release_def)
  next
    case load_serving
    from anderson_tickets_load_serving [OF q p c load_serving(2)] load_serving(1,2)
    show ?thesis unfolding anderson_tickets_def
      by (intro exI [of _ tk] exI [of _ r]) (simp add: atomic_load_def)
  next
    case (store_serving x)
    from anderson_tickets_store_serving [OF q p c store_serving(2)] store_serving(1,2)
    show ?thesis unfolding anderson_tickets_def
      by (intro exI [of _ tk] exI [of _ r]) (simp add: atomic_store_def)
  next
    case (set_flag x)
    from anderson_tickets_set_flag [OF q p c set_flag(2)] set_flag(1,2)
    show ?thesis unfolding anderson_tickets_def
      by (intro exI [of _ tk] exI [of _ "Suc r"]) (simp add: atomic_store_release_def)
  qed
qed

lemma anderson_run_tickets:
  assumes run: "anderson_run lock0 n T k s"
    and len: "length (flags lock0) = 64" and n: "n \<noteq> 0"
    and T: "finite T" "card T \<le> unat (num_slots (anderson_init lock0 n))"
  shows "k \<le> 2 ^ 32 \<or> unat (num_slots (anderson_init lock0 n)) dvd 2 ^ 32 \<Longrightarrow>
    \<exists>tk r. anderson_tickets (unat (num_slots (anderson_init lock0 n))) T k s tk r"
  using run
proof (induction rule: anderson_run.induct)
  case start
  show ?case using anderson_tickets_start [OF len n] by blast
next
  case (call k lock pc t s')
  let ?m = "unat (num_slots (anderson_init lock0 n))"
  from call.prems have K: "k \<le> 2 ^ 32 \<or> ?m dvd 2 ^ 32" and K': "k < 2 ^ 32 \<or> ?m dvd 2 ^ 32"
    by auto
  from call.IH [OF K] obtain tk r where inv: "anderson_tickets ?m T k (lock, pc) tk r" by blast
  from anderson_tickets_step [OF inv T call.hyps(2) call.hyps(4)] K' call.hyps(3)
  show ?case by simp
next
  case (step k lock pc t s')
  let ?m = "unat (num_slots (anderson_init lock0 n))"
  from step.IH [OF step.prems] obtain tk r where inv: "anderson_tickets ?m T k (lock, pc) tk r"
    by blast
  from anderson_tickets_step [OF inv T step.hyps(2) step.hyps(4)] step.hyps(3)
  show ?case by simp
qed

text \<open>The steps of a run, with the values of the atomic operations put in.\<close>

lemma run_fetch_add:
  "anderson_run lock0 n T k (lock, pc) \<Longrightarrow> t \<in> T \<Longrightarrow> pc t = Outside \<Longrightarrow>
   num_slots lock \<noteq> 0 \<Longrightarrow>
   anderson_run lock0 n T (Suc k)
     (lock\<lparr>next_slot := next_slot lock + 1\<rparr>,
      pc(t := Waiting (unat (next_slot lock mod num_slots lock))))"
  by (erule anderson_run.call, assumption, assumption)
     (rule anderson_step.fetch_add, simp_all add: atomic_fetch_add_def)

lemma run_pass:
  "anderson_run lock0 n T k (lock, pc) \<Longrightarrow> t \<in> T \<Longrightarrow> pc t = Waiting sl \<Longrightarrow>
   sl < 64 \<Longrightarrow> flags lock ! sl \<noteq> 0 \<Longrightarrow>
   anderson_run lock0 n T k (lock, pc(t := Passed sl))"
  by (erule anderson_run.step, assumption, simp)
     (rule anderson_step.pass,
      simp_all add: atomic_load_acquire_def ANDERSON_LOCK_MAX_THREADS_def)

lemma run_clear:
  "anderson_run lock0 n T k (lock, pc) \<Longrightarrow> t \<in> T \<Longrightarrow> pc t = Passed sl \<Longrightarrow>
   anderson_run lock0 n T k (lock\<lparr>flags := (flags lock)[sl := 0]\<rparr>, pc(t := Holding))"
  using anderson_run.step [of lock0 n T k lock pc t, OF _ _ _ anderson_step.clear [of pc t sl lock]]
  by (simp add: atomic_store_release_def)

lemma run_load_serving:
  "anderson_run lock0 n T k (lock, pc) \<Longrightarrow> t \<in> T \<Longrightarrow> pc t = Holding \<Longrightarrow>
   anderson_run lock0 n T k (lock, pc(t := Releasing1 (serving_slot lock + 1)))"
  using anderson_run.step [of lock0 n T k lock pc t, OF _ _ _ anderson_step.load_serving [of pc t lock]]
  by (simp add: atomic_load_def)

lemma run_store_serving:
  "anderson_run lock0 n T k (lock, pc) \<Longrightarrow> t \<in> T \<Longrightarrow> pc t = Releasing1 x \<Longrightarrow>
   num_slots lock \<noteq> 0 \<Longrightarrow>
   anderson_run lock0 n T k
     (lock\<lparr>serving_slot := x mod num_slots lock\<rparr>, pc(t := Releasing2 x))"
  using anderson_run.step [of lock0 n T k lock pc t, OF _ _ _ anderson_step.store_serving [of pc t x lock]]
  by (simp add: atomic_store_def)

lemma run_set_flag:
  "anderson_run lock0 n T k (lock, pc) \<Longrightarrow> t \<in> T \<Longrightarrow> pc t = Releasing2 x \<Longrightarrow>
   num_slots lock \<noteq> 0 \<Longrightarrow> unat (x mod num_slots lock) < 64 \<Longrightarrow>
   anderson_run lock0 n T k
     (lock\<lparr>flags := (flags lock)[unat (x mod num_slots lock) := 1]\<rparr>, pc(t := Outside))"
  using anderson_run.step [of lock0 n T k lock pc t, OF _ _ _ anderson_step.set_flag [of pc t x lock]]
  by (simp add: atomic_store_release_def ANDERSON_LOCK_MAX_THREADS_def)

text \<open>
  One thread alone: each acquire; release pair takes the run from
  \<open>anderson_after s0 j\<close> to \<open>anderson_after s0 (Suc j)\<close>.
\<close>

lemma anderson_run_pair:
  assumes len: "length (flags lock0) = 64" and n: "n \<noteq> 0" and t: "t \<in> T"
    and K: "j < 2 ^ 32 \<or> unat (num_slots (anderson_init lock0 n)) dvd 2 ^ 32"
    and run: "anderson_run lock0 n T j (anderson_after (anderson_init lock0 n) j, \<lambda>t. Outside)"
  shows "anderson_run lock0 n T (Suc j)
           (anderson_after (anderson_init lock0 n) (Suc j), \<lambda>t. Outside)"
proof -
  let ?s0 = "anderson_init lock0 n"
  let ?ns = "num_slots ?s0"
  let ?m = "unat ?ns"
  let ?A = "anderson_after ?s0 j"
  let ?x = "(of_nat (j mod ?m) :: u32) + 1"
  have ns0: "?ns \<noteq> 0" using n by (simp add: anderson_init_fields)
  then have m0: "0 < ?m" by (simp add: unat_gt_0)
  have m64: "?m \<le> 64" by (rule unat_num_slots_init_le)
  have len0: "length (flags ?s0) = 64" using len by (simp add: anderson_init_fields)
  have fl0: "\<And>i. i < ?m \<Longrightarrow> flags ?s0 ! i = (if i = 0 then 1 else 0)"
    using anderson_init_flags [of _ lock0 n] m64 len by simp
  have jm: "j mod ?m < ?m" using m0 by simp
  have jm64: "j mod ?m < 64" using jm m64 by simp
  have A_ns: "num_slots ?A = ?ns" by (simp add: anderson_after_def)
  have slot: "unat (next_slot ?A mod ?ns) = j mod ?m"
    using slot_of_ticket [OF K] by (simp add: anderson_after_def)
  have set: "flags ?A ! (j mod ?m) \<noteq> 0"
    using jm64 len0 by (simp add: anderson_after_def)
  have srv: "?x mod ?ns = of_nat (Suc j mod ?m)"
    using next_serving_slot [OF m0 m64 jm] by (simp add: mod_Suc_eq)
  have "Suc j mod ?m < 2 ^ 32"
    using m0 m64 by (intro less_trans [OF mod_less_divisor]) simp_all
  then have ix: "unat (?x mod ?ns) = Suc j mod ?m"
    by (simp add: srv unat_of_nat_u32)
  have ix64: "unat (?x mod ?ns) < 64"
    unfolding ix using m0 m64 by (intro less_le_trans [OF mod_less_divisor]) simp_all
  have clear: "(flags ?s0)[0 := 0, j mod ?m := 1, j mod ?m := 0] = (flags ?s0)[0 := 0]"
    using fl0 [OF jm] jm m64 len0
    by (cases "j mod ?m = 0") (simp_all add: list_update_same_conv)
  let ?l1 = "?A\<lparr>next_slot := next_slot ?A + 1\<rparr>"
  let ?p1 = "(\<lambda>t. Outside)(t := Waiting (j mod ?m))"
  have r1: "anderson_run lock0 n T (Suc j) (?l1, ?p1)"
    using run_fetch_add [OF run t] ns0 by (simp add: A_ns slot)
  have r2: "anderson_run lock0 n T (Suc j) (?l1, ?p1(t := Passed (j mod ?m)))"
    using set jm64 by (intro run_pass [OF r1 t]) simp_all
  let ?l3 = "?l1\<lparr>flags := (flags ?l1)[j mod ?m := 0]\<rparr>"
  have r3: "anderson_run lock0 n T (Suc j) (?l3, (?p1(t := Passed (j mod ?m)))(t := Holding))"
    by (intro run_clear [OF r2 t]) simp
  have r4: "anderson_run lock0 n T (Suc j) (?l3, (\<lambda>t. Outside)(t := Releasing1 ?x))"
    using run_load_serving [OF r3 t] by (simp add: anderson_after_def)
  let ?l5 = "?l3\<lparr>serving_slot := of_nat (Suc j mod ?m)\<rparr>"
  have r5: "anderson_run lock0 n T (Suc j) (?l5, (\<lambda>t. Outside)(t := Releasing2 ?x))"
    using run_store_serving [OF r4 t, of ?x] ns0 srv by (simp add: anderson_after_def)
  have r6: "anderson_run lock0 n T (Suc j)
      (?l5\<lparr>flags := (flags ?l5)[Suc j mod ?m := 1]\<rparr>, ((\<lambda>t. Outside)(t := Releasing2 ?x))(t := Outside))"
    using run_set_flag [OF r5 t, of ?x] ns0 ix ix64 by (simp add: anderson_after_def)
  have l: "?l5\<lparr>flags := (flags ?l5)[Suc j mod ?m := 1]\<rparr> = anderson_after ?s0 (Suc j)"
    using clear by (simp add: anderson_after_def)
  have p: "((\<lambda>t. Outside)(t := Releasing2 ?x))(t := Outside) = (\<lambda>t. Outside)"
    by auto
  show ?thesis using r6 unfolding l p .
qed

lemma anderson_run_pairs:
  assumes len: "length (flags lock0) = 64" and n: "n \<noteq> 0" and t: "t \<in> T"
  shows "k \<le> 2 ^ 32 \<or> unat (num_slots (anderson_init lock0 n)) dvd 2 ^ 32 \<Longrightarrow>
    anderson_run lock0 n T k (anderson_after (anderson_init lock0 n) k, \<lambda>t. Outside)"
proof (induction k)
  case 0
  show ?case using anderson_run.start [of lock0 n T] by (simp add: anderson_after_0 [OF len n])
next
  case (Suc k)
  then have K: "k \<le> 2 ^ 32 \<or> unat (num_slots (anderson_init lock0 n)) dvd 2 ^ 32"
    and K': "k < 2 ^ 32 \<or> unat (num_slots (anderson_init lock0 n)) dvd 2 ^ 32"
    by auto
  show ?case using anderson_run_pair [OF len n t K' Suc.IH [OF K]] .
qed

text \<open>No step writes \<open>num_slots\<close>.\<close>

lemma anderson_step_num_slots:
  "anderson_step t (lock, pc) (lock', pc') \<Longrightarrow> num_slots lock' = num_slots lock"
  by (erule anderson_step.cases) auto

lemma anderson_run_num_slots:
  "anderson_run lock0 n T k s \<Longrightarrow> num_slots (fst s) = num_slots (anderson_init lock0 n)"
proof (induction rule: anderson_run.induct)
  case start
  show ?case by simp
next
  case (call k lock pc t s')
  then show ?case using anderson_step_num_slots [of t lock pc "fst s'" "snd s'"] by simp
next
  case (step k lock pc t s')
  then show ?case using anderson_step_num_slots [of t lock pc "fst s'" "snd s'"] by simp
qed

section \<open>The atomic layer on the seed scenario\<close>

text \<open>
  Claim C2. The seed scenario of the atomic layer, step by step on one cell that starts
  at 0: exchange with 42 returns 0 and leaves 42; compare-and-swap expecting 42 and
  desiring 100 returns 42 and leaves 100; compare-and-swap expecting 42 and desiring 200
  on the cell holding 100 returns 100 and leaves 100; fetch-add of 50 returns 100 and
  leaves 150; fetch-and with 0xF0 on 150 returns 150 and leaves 144.
\<close>

theorem atomic_seed_scenario:
  "atomic_xchg 0 42 = (0, 42) \<and>
   atomic_cmpxchg 42 42 100 = (42, 100) \<and>
   atomic_cmpxchg 100 42 200 = (100, 100) \<and>
   atomic_fetch_add 100 50 = (100, 150) \<and>
   atomic_and 150 0xF0 = (150, 144)"
  by (simp add: atomic_defs)

section \<open>Ticket lock: the counters wrap\<close>

lemma unat_plus_one_u32: "unat (w + 1 :: u32) = (unat w + 1) mod 2 ^ 32"
  by (simp add: unat_word_ariths)

text \<open>
  Claim C9. The counters of the ticket lock are 32-bit and wrap. For every lock state,
  \<^verbatim>\<open>ticket_unlock\<close> stores \<open>(serving + 1) mod 2^32\<close> into \<open>serving\<close> and leaves
  \<open>next_ticket\<close> alone, so from \<open>serving = 2^32 - 1\<close> it stores 0. The fetch-add of
  \<^verbatim>\<open>ticket_lock\<close> hands \<open>(next_ticket + 1) mod 2^32\<close> to the wait loop, whether or not
  that loop ends, so from \<open>next_ticket = 2^32 - 1\<close> the counter is 0; and when
  \<^verbatim>\<open>ticket_lock\<close> returns, \<open>next_ticket\<close> has advanced by one modulo \<open>2^32\<close>.
\<close>

theorem ticket_counters_wrap:
  "unat (serving (ticket_unlock lock)) = (unat (serving lock) + 1) mod 2 ^ 32 \<and>
   next_ticket (ticket_unlock lock) = next_ticket lock \<and>
   (serving lock = 0xFFFFFFFF \<longrightarrow> serving (ticket_unlock lock) = 0) \<and>
   (\<exists>cell. atomic_fetch_add (next_ticket lock) 1 = (next_ticket lock, cell) \<and>
      unat cell = (unat (next_ticket lock) + 1) mod 2 ^ 32 \<and>
      ticket_lock lock = ticket_lock_wait (lock\<lparr>next_ticket := cell\<rparr>) (next_ticket lock)) \<and>
   (next_ticket lock = 0xFFFFFFFF \<longrightarrow>
      ticket_lock lock = ticket_lock_wait (lock\<lparr>next_ticket := 0\<rparr>) 0xFFFFFFFF) \<and>
   (\<forall>lock'. ticket_lock lock = Some lock' \<longrightarrow>
      unat (next_ticket lock') = (unat (next_ticket lock) + 1) mod 2 ^ 32 \<and>
      serving lock' = serving lock)"
proof -
  have unlock: "ticket_unlock lock = lock\<lparr>serving := serving lock + 1\<rparr>"
    by (simp add: ticket_unlock_def atomic_load_def atomic_store_release_def)
  have a: "unat (serving (ticket_unlock lock)) = (unat (serving lock) + 1) mod 2 ^ 32"
    by (simp add: unlock unat_plus_one_u32)
  have b: "next_ticket (ticket_unlock lock) = next_ticket lock"
    by (simp add: unlock)
  have c: "serving lock = 0xFFFFFFFF \<longrightarrow> serving (ticket_unlock lock) = 0"
    by (simp add: unlock)
  have d: "\<exists>cell. atomic_fetch_add (next_ticket lock) 1 = (next_ticket lock, cell) \<and>
      unat cell = (unat (next_ticket lock) + 1) mod 2 ^ 32 \<and>
      ticket_lock lock = ticket_lock_wait (lock\<lparr>next_ticket := cell\<rparr>) (next_ticket lock)"
    by (simp add: ticket_lock_def atomic_fetch_add_def unat_plus_one_u32)
  have e: "next_ticket lock = 0xFFFFFFFF \<longrightarrow>
      ticket_lock lock = ticket_lock_wait (lock\<lparr>next_ticket := 0\<rparr>) 0xFFFFFFFF"
  proof -
    have z: "(4294967296 :: u32) = 0" by simp
    show ?thesis by (simp add: ticket_lock_def atomic_fetch_add_def z)
  qed
  have f: "\<forall>lock'. ticket_lock lock = Some lock' \<longrightarrow>
      unat (next_ticket lock') = (unat (next_ticket lock) + 1) mod 2 ^ 32 \<and>
      serving lock' = serving lock"
    by (auto simp: ticket_lock_eq unat_plus_one_u32 split: if_splits)
  from a b c d e f show ?thesis by blast
qed

text \<open>
  Both counters at \<open>2^32 - 1\<close>: the release stores 0, and the acquire returns with
  \<open>next_ticket\<close> wrapped to 0.
\<close>

theorem ticket_counters_wrap_witness:
  "serving (ticket_unlock \<lparr>next_ticket = 0xFFFFFFFF, serving = 0xFFFFFFFF\<rparr>) = 0 \<and>
   ticket_lock \<lparr>next_ticket = 0xFFFFFFFF, serving = 0xFFFFFFFF\<rparr>
     = Some \<lparr>next_ticket = 0, serving = 0xFFFFFFFF\<rparr> \<and>
   unat (next_ticket \<lparr>next_ticket = 0, serving = 0xFFFFFFFF :: u32\<rparr>)
     = (unat (0xFFFFFFFF :: u32) + 1) mod 2 ^ 32"
  using ticket_counters_wrap [of "\<lparr>next_ticket = 0xFFFFFFFF, serving = 0xFFFFFFFF\<rparr>"]
  by (simp add: ticket_lock_wait_eq)


section \<open>Ticket lock: try-acquire\<close>

text \<open>
  Claim C5. \<^verbatim>\<open>ticket_trylock\<close>, for every lock state. Run alone: when \<open>next_ticket\<close>
  differs from \<open>serving\<close> it returns 0 and leaves the lock as it was; when they are equal
  it returns 1 and has moved \<open>next_ticket\<close> up by one. With other threads running
  between its accesses: when the two snapshots differ it returns 0 and writes nothing;
  when they are equal and the compare-and-swap finds \<open>next_ticket\<close> still at the
  snapshot, it stores snapshot + 1 there and returns 1 exactly when \<open>serving\<close>, read
  after the compare-and-swap, still equals the snapshot; when the compare-and-swap
  fails it returns 0 and writes nothing.
\<close>

theorem ticket_trylock_spec:
  "(next_ticket lock \<noteq> serving lock \<longrightarrow> ticket_trylock id id id lock = (0, lock)) \<and>
   (next_ticket lock = serving lock \<longrightarrow>
      ticket_trylock id id id lock = (1, lock\<lparr>next_ticket := next_ticket lock + 1\<rparr>)) \<and>
   (next_ticket lock \<noteq> serving (env1 lock) \<longrightarrow>
      ticket_trylock env1 env2 env3 lock = (0, env1 lock)) \<and>
   (next_ticket lock = serving (env1 lock) \<and> next_ticket (env2 (env1 lock)) = next_ticket lock \<longrightarrow>
      ticket_trylock env1 env2 env3 lock =
        (c_int (serving (env3 ((env2 (env1 lock))\<lparr>next_ticket := next_ticket lock + 1\<rparr>))
                  = next_ticket lock),
         env3 ((env2 (env1 lock))\<lparr>next_ticket := next_ticket lock + 1\<rparr>))) \<and>
   (next_ticket lock = serving (env1 lock) \<and> next_ticket (env2 (env1 lock)) \<noteq> next_ticket lock \<longrightarrow>
      ticket_trylock env1 env2 env3 lock = (0, env2 (env1 lock)))"
  by (auto simp: ticket_trylock_def Let_def atomic_load_def atomic_load_acquire_def
        atomic_cmpxchg_bool_def atomic_cmpxchg_def c_int_def)

text \<open>
  A free lock is taken; a lock with a waiter is refused; and a release by another
  thread between the compare-and-swap and the last read makes the try fail although
  the ticket has been taken.
\<close>

theorem ticket_trylock_spec_witness:
  "ticket_trylock id id id \<lparr>next_ticket = 3, serving = 3\<rparr> = (1, \<lparr>next_ticket = 4, serving = 3\<rparr>) \<and>
   ticket_trylock id id id \<lparr>next_ticket = 4, serving = 3\<rparr> = (0, \<lparr>next_ticket = 4, serving = 3\<rparr>) \<and>
   ticket_trylock id id (\<lambda>l. l\<lparr>serving := serving l + 1\<rparr>) \<lparr>next_ticket = 3, serving = 3\<rparr>
     = (0, \<lparr>next_ticket = 4, serving = 4\<rparr>)"
  using ticket_trylock_spec [of "\<lparr>next_ticket = 3, serving = 3\<rparr>" id id "\<lambda>l. l\<lparr>serving := serving l + 1\<rparr>"]
        ticket_trylock_spec [of "\<lparr>next_ticket = 4, serving = 3\<rparr>" id id id]
  by (simp add: c_int_def)

section \<open>Reader-writer lock: try-acquire\<close>

text \<open>
  The writer field is a flag: \<^verbatim>\<open>rw_init\<close> stores 0, and every operation of the lock
  that returns leaves 0 or 1 in it when it found 0 or 1.
\<close>

lemma rw_writer_is_flag:
  "writer (rw_init lock0) = 0"
  "writer lock = 0 \<or> writer lock = 1 \<Longrightarrow>
     (\<forall>l'. rw_read_lock lock = Some l' \<longrightarrow> writer l' = 0 \<or> writer l' = 1) \<and>
     (\<forall>l'. rw_write_lock lock = Some l' \<longrightarrow> writer l' = 0 \<or> writer l' = 1) \<and>
     (writer (snd (rw_read_trylock lock)) = 0 \<or> writer (snd (rw_read_trylock lock)) = 1) \<and>
     (writer (snd (rw_write_trylock lock)) = 0 \<or> writer (snd (rw_write_trylock lock)) = 1) \<and>
     (writer (rw_read_unlock lock) = 0 \<or> writer (rw_read_unlock lock) = 1) \<and>
     (writer (rw_write_unlock lock) = 0 \<or> writer (rw_write_unlock lock) = 1)"
  by (auto simp: rw_init_def rw_read_lock_eq rw_write_lock_eq rw_read_trylock_def
        rw_write_trylock_def rw_read_unlock_def rw_write_unlock_def Let_def atomic_defs
        split: if_splits)

text \<open>
  Claim C8. The try operations of the reader-writer lock have no loop: they return at
  once. On a lock whose writer flag is 0 or 1, \<^verbatim>\<open>rw_write_trylock\<close> returns 1 exactly
  when it found \<open>writer = 0\<close> and \<open>readers = 0\<close>, and then has set \<open>writer\<close> to 1; in
  every other case it returns 0 and the lock at return equals the lock before the call
  (with readers present, \<open>writer\<close> is put back to 0). \<^verbatim>\<open>rw_read_trylock\<close> returns 0 and
  leaves the lock unchanged when \<open>writer\<close> is not 0, and when \<open>writer\<close> is 0 it returns 1
  with \<open>readers\<close> one higher.
\<close>

theorem rw_trylock_spec:
  assumes "writer lock = 0 \<or> writer lock = 1"
  shows "(fst (rw_write_trylock lock) = 1 \<longleftrightarrow> writer lock = 0 \<and> rwlock_t.readers lock = 0) \<and>
   (writer lock = 0 \<and> rwlock_t.readers lock = 0 \<longrightarrow>
      rw_write_trylock lock = (1, lock\<lparr>writer := 1\<rparr>)) \<and>
   (\<not> (writer lock = 0 \<and> rwlock_t.readers lock = 0) \<longrightarrow> rw_write_trylock lock = (0, lock)) \<and>
   (writer lock \<noteq> 0 \<longrightarrow> rw_read_trylock lock = (0, lock)) \<and>
   (writer lock = 0 \<longrightarrow>
      rw_read_trylock lock = (1, lock\<lparr>rwlock_t.readers := rwlock_t.readers lock + 1\<rparr>))"
  using assms
  by (auto simp: rw_write_trylock_def rw_read_trylock_def Let_def atomic_xchg_def atomic_load_def
        atomic_store_def atomic_cmpxchg_bool_def atomic_cmpxchg_def)

theorem rw_trylock_spec_witness:
  "rw_write_trylock \<lparr>rwlock_t.readers = 0, writer = 0\<rparr> = (1, \<lparr>rwlock_t.readers = 0, writer = 1\<rparr>) \<and>
   rw_write_trylock \<lparr>rwlock_t.readers = 2, writer = 0\<rparr> = (0, \<lparr>rwlock_t.readers = 2, writer = 0\<rparr>) \<and>
   rw_write_trylock \<lparr>rwlock_t.readers = 0, writer = 1\<rparr> = (0, \<lparr>rwlock_t.readers = 0, writer = 1\<rparr>) \<and>
   rw_read_trylock \<lparr>rwlock_t.readers = 2, writer = 1\<rparr> = (0, \<lparr>rwlock_t.readers = 2, writer = 1\<rparr>) \<and>
   rw_read_trylock \<lparr>rwlock_t.readers = 2, writer = 0\<rparr> = (1, \<lparr>rwlock_t.readers = 3, writer = 0\<rparr>)"
  using rw_trylock_spec [of "\<lparr>rwlock_t.readers = 0, writer = 0\<rparr>"]
        rw_trylock_spec [of "\<lparr>rwlock_t.readers = 2, writer = 0\<rparr>"]
        rw_trylock_spec [of "\<lparr>rwlock_t.readers = 0, writer = 1\<rparr>"]
        rw_trylock_spec [of "\<lparr>rwlock_t.readers = 2, writer = 1\<rparr>"]
  by simp

section \<open>Phase-fair lock: the first reader waits for a writer\<close>

lemma rw_phase_before_unlock_read_phase:
  "rw_phase_before_unlock s \<Longrightarrow> read_phase s = 0"
  by (induction rule: rw_phase_before_unlock.induct)
     (auto simp: rw_phase_init_def rw_phase_read_lock_eq rw_phase_read_unlock_def
        rw_phase_write_lock_eq Let_def atomic_defs split: if_splits)

text \<open>
  Claim C6. \<^verbatim>\<open>rw_phase_init\<close> sets \<open>readers\<close>, \<open>writers\<close>, \<open>writer_active\<close> and
  \<open>read_phase\<close> to zero. In that state the admission test of the readers,
  \<open>writer_active = 0\<close> and \<open>read_phase = 1\<close>, is false, and \<^verbatim>\<open>rw_phase_read_lock\<close>
  does not return; nor does it return in any state reached from the initial one by
  operations other than \<^verbatim>\<open>rw_phase_write_unlock\<close>. After one
  \<^verbatim>\<open>rw_phase_write_lock\<close> and \<^verbatim>\<open>rw_phase_write_unlock\<close> from the initial state,
  \<open>read_phase\<close> is 1 and \<^verbatim>\<open>rw_phase_read_lock\<close> returns with one reader counted.
\<close>

theorem rw_phase_bootstrap:
  "rwlock_phase_t.readers (rw_phase_init lock) = 0 \<and> writers (rw_phase_init lock) = 0 \<and>
   writer_active (rw_phase_init lock) = 0 \<and> read_phase (rw_phase_init lock) = 0 \<and>
   \<not> (writer_active (rw_phase_init lock) = 0 \<and> read_phase (rw_phase_init lock) = 1) \<and>
   rw_phase_read_lock (rw_phase_init lock) = None \<and>
   (\<forall>s. rw_phase_before_unlock s \<longrightarrow> rw_phase_read_lock s = None) \<and>
   (\<exists>w r. rw_phase_write_lock (rw_phase_init lock) = Some w \<and>
      read_phase (rw_phase_write_unlock w) = 1 \<and>
      rw_phase_read_lock (rw_phase_write_unlock w) = Some r \<and>
      rwlock_phase_t.readers r = 1)"
proof -
  have i: "rw_phase_init lock =
      lock\<lparr>rwlock_phase_t.readers := 0, writers := 0, writer_active := 0, read_phase := 0\<rparr>"
    by (simp add: rw_phase_init_def Let_def atomic_store_def)
  have a: "\<forall>s. rw_phase_before_unlock s \<longrightarrow> rw_phase_read_lock s = None"
    by (auto simp: rw_phase_read_lock_eq dest: rw_phase_before_unlock_read_phase)
  have b: "\<exists>w r. rw_phase_write_lock (rw_phase_init lock) = Some w \<and>
      read_phase (rw_phase_write_unlock w) = 1 \<and>
      rw_phase_read_lock (rw_phase_write_unlock w) = Some r \<and>
      rwlock_phase_t.readers r = 1"
    by (simp add: i rw_phase_write_lock_eq rw_phase_write_unlock_def rw_phase_read_lock_eq
          Let_def atomic_store_def atomic_store_release_def)
  show ?thesis using a b by (simp add: i rw_phase_read_lock_eq)
qed

theorem rw_phase_bootstrap_witness:
  "rw_phase_init \<lparr>readers = 3, writers = 1, writer_active = 1, read_phase = 1\<rparr>
     = \<lparr>readers = 0, writers = 0, writer_active = 0, read_phase = 0\<rparr> \<and>
   rw_phase_read_lock \<lparr>readers = 0, writers = 0, writer_active = 0, read_phase = 0\<rparr> = None \<and>
   rw_phase_write_lock \<lparr>readers = 0, writers = 0, writer_active = 0, read_phase = 0\<rparr>
     = Some \<lparr>readers = 0, writers = 0, writer_active = 1, read_phase = 0\<rparr> \<and>
   rw_phase_read_lock \<lparr>readers = 0, writers = 0, writer_active = 1, read_phase = 0\<rparr> = None \<and>
   rw_phase_read_lock
     (rw_phase_write_unlock \<lparr>readers = 0, writers = 0, writer_active = 1, read_phase = 0\<rparr>)
     = Some \<lparr>readers = 1, writers = 0, writer_active = 0, read_phase = 1\<rparr>"
proof -
  let ?l = "\<lparr>readers = 3, writers = 1, writer_active = 1, read_phase = 1 :: u32\<rparr>"
  let ?w = "\<lparr>readers = 0, writers = 0, writer_active = 1, read_phase = 0 :: u32\<rparr>"
  have i: "rw_phase_init ?l = \<lparr>readers = 0, writers = 0, writer_active = 0, read_phase = 0\<rparr>"
    by (simp add: rw_phase_init_def Let_def atomic_store_def)
  have w: "rw_phase_write_lock (rw_phase_init ?l) = Some ?w"
    by (simp add: i rw_phase_write_lock_eq)
  have r: "rw_phase_before_unlock ?w"
    using rw_phase_before_unlock.write_lock [OF rw_phase_before_unlock.init w] .
  from rw_phase_bootstrap [of ?l] r i w show ?thesis
    by (simp add: rw_phase_write_unlock_def Let_def atomic_store_def atomic_store_release_def
          rw_phase_read_lock_eq)
qed

section \<open>Anderson lock: initialisation\<close>

text \<open>
  Claim C10. \<^verbatim>\<open>anderson_init\<close> clamps its argument without a word: called with more
  than \<^verbatim>\<open>ANDERSON_LOCK_MAX_THREADS\<close> (64) slots it sets \<open>num_slots\<close> to 64, and
  otherwise to the argument. It leaves \<open>next_slot = 0\<close> and \<open>serving_slot = 0\<close>; for a
  slot count that is not zero it leaves \<open>flags[0] = 1\<close>, and \<open>flags[i] = 0\<close> for every
  \<open>1 \<le> i < num_slots\<close>. The lock is any lock whose \<open>flags\<close> array has its 64 cells.
\<close>

theorem anderson_init_spec:
  assumes "length (flags lock) = ANDERSON_LOCK_MAX_THREADS"
  shows "(64 < n \<longrightarrow> num_slots (anderson_init lock n) = 64) \<and>
   (n \<le> 64 \<longrightarrow> num_slots (anderson_init lock n) = n) \<and>
   next_slot (anderson_init lock n) = 0 \<and>
   serving_slot (anderson_init lock n) = 0 \<and>
   (n \<noteq> 0 \<longrightarrow> flags (anderson_init lock n) ! 0 = 1) \<and>
   (\<forall>i. 1 \<le> i \<and> i < unat (num_slots (anderson_init lock n)) \<longrightarrow>
      flags (anderson_init lock n) ! i = 0)"
proof -
  have len: "length (flags lock) = 64"
    using assms by (simp add: ANDERSON_LOCK_MAX_THREADS_def)
  have a: "n \<noteq> 0 \<longrightarrow> flags (anderson_init lock n) ! 0 = 1"
  proof
    assume "n \<noteq> 0"
    then have "0 < unat (num_slots (anderson_init lock n))"
      by (simp add: anderson_init_fields unat_gt_0)
    then show "flags (anderson_init lock n) ! 0 = 1"
      using anderson_init_flags [of 0 lock n] len by simp
  qed
  have b: "\<forall>i. 1 \<le> i \<and> i < unat (num_slots (anderson_init lock n)) \<longrightarrow>
      flags (anderson_init lock n) ! i = 0"
  proof (intro allI impI)
    fix i assume i: "1 \<le> i \<and> i < unat (num_slots (anderson_init lock n))"
    then have "i < length (flags lock)"
      using unat_num_slots_init_le [of lock n] len by simp
    then show "flags (anderson_init lock n) ! i = 0"
      using anderson_init_flags [of i lock n] i by simp
  qed
  show ?thesis using a b by (auto simp: anderson_init_fields)
qed

text \<open>
  On a lock full of other values: 100 slots asked give 64, and 4 slots asked give 4;
  slot 0 is set and the last slot is clear.
\<close>

theorem anderson_init_spec_witness:
  "num_slots (anderson_init
     \<lparr>next_slot = 7, serving_slot = 9, flags = replicate 64 5, num_slots = 3\<rparr> 100) = 64 \<and>
   next_slot (anderson_init
     \<lparr>next_slot = 7, serving_slot = 9, flags = replicate 64 5, num_slots = 3\<rparr> 100) = 0 \<and>
   serving_slot (anderson_init
     \<lparr>next_slot = 7, serving_slot = 9, flags = replicate 64 5, num_slots = 3\<rparr> 100) = 0 \<and>
   flags (anderson_init
     \<lparr>next_slot = 7, serving_slot = 9, flags = replicate 64 5, num_slots = 3\<rparr> 100) ! 0 = 1 \<and>
   flags (anderson_init
     \<lparr>next_slot = 7, serving_slot = 9, flags = replicate 64 5, num_slots = 3\<rparr> 100) ! 63 = 0 \<and>
   num_slots (anderson_init
     \<lparr>next_slot = 7, serving_slot = 9, flags = replicate 64 5, num_slots = 3\<rparr> 4) = 4 \<and>
   flags (anderson_init
     \<lparr>next_slot = 7, serving_slot = 9, flags = replicate 64 5, num_slots = 3\<rparr> 4) ! 3 = 0"
  using anderson_init_spec
          [of "\<lparr>next_slot = 7, serving_slot = 9, flags = replicate 64 5, num_slots = 3\<rparr>" 100]
        anderson_init_spec
          [of "\<lparr>next_slot = 7, serving_slot = 9, flags = replicate 64 5, num_slots = 3\<rparr>" 4]
  by (simp add: ANDERSON_LOCK_MAX_THREADS_def)

section \<open>Anderson lock: the flags in the reachable states\<close>

lemma anderson_inv_bounds:
  "anderson_inv n s held \<Longrightarrow> num_slots s \<noteq> 0 \<and> unat (num_slots s) \<le> 64"
  by (auto simp: anderson_inv_def word_less_nat_alt split: if_splits)

lemma anderson_inv_init:
  assumes "length (flags lock0) = 64" "n \<noteq> 0"
  shows "anderson_inv n (anderson_init lock0 n) False"
proof -
  have pos: "0 < unat (num_slots (anderson_init lock0 n))"
    using assms(2) by (simp add: anderson_init_fields unat_gt_0)
  have "\<forall>i < unat (num_slots (anderson_init lock0 n)).
          flags (anderson_init lock0 n) ! i = (if i = 0 then 1 else 0)"
    using anderson_init_flags [of _ lock0 n] unat_num_slots_init_le [of lock0 n] assms(1)
    by auto
  with pos show ?thesis
    using assms(1) by (simp add: anderson_inv_def anderson_init_fields)
qed

lemma anderson_inv_acquire:
  assumes inv: "anderson_inv n s held" and step: "anderson_lock s = Some (Inr s')"
  shows "anderson_inv n s' True"
proof -
  note b = anderson_inv_bounds [OF inv]
  let ?k = "unat (next_slot s mod num_slots s)"
  from step b have set: "flags s ! ?k \<noteq> 0"
    and s': "s' = s\<lparr>next_slot := next_slot s + 1, flags := (flags s)[?k := 0]\<rparr>"
    by (simp_all add: anderson_lock_eq split: if_splits)
  from inv have ns: "num_slots s = (if 64 < n then 64 else n)"
    unfolding anderson_inv_def by (rule conjunct1)
  from inv have len: "length (flags s) = 64"
    unfolding anderson_inv_def by (elim conjE)
  from inv have srv: "unat (serving_slot s) < unat (num_slots s)"
    unfolding anderson_inv_def by (elim conjE)
  from inv have fl: "\<And>i. i < unat (num_slots s) \<Longrightarrow>
               flags s ! i = (if \<not> held \<and> i = unat (serving_slot s) then 1 else 0)"
    unfolding anderson_inv_def by (elim conjE) simp
  have k: "?k < unat (num_slots s)"
    using b by (simp add: unat_mod_less)
  have "\<And>i. i < unat (num_slots s) \<Longrightarrow> (flags s)[?k := 0] ! i = 0"
  proof -
    fix i assume i: "i < unat (num_slots s)"
    show "(flags s)[?k := 0] ! i = 0"
    proof (cases "i = ?k")
      case True
      then show ?thesis using i b len by simp
    next
      case False
      with set fl [OF k] fl [OF i] show ?thesis by (auto split: if_splits)
    qed
  qed
  then show ?thesis
    using len srv ns by (simp add: anderson_inv_def s')
qed

lemma anderson_inv_release:
  assumes inv: "anderson_inv n s True" and step: "anderson_unlock s = Inr s'"
  shows "anderson_inv n s' False"
proof -
  note b = anderson_inv_bounds [OF inv]
  let ?k = "(serving_slot s + 1) mod num_slots s"
  from step b have s': "s' = s\<lparr>serving_slot := ?k, flags := (flags s)[unat ?k := 1]\<rparr>"
    by (simp add: anderson_unlock_eq)
  from inv have ns: "num_slots s = (if 64 < n then 64 else n)"
    unfolding anderson_inv_def by (rule conjunct1)
  from inv have len: "length (flags s) = 64"
    unfolding anderson_inv_def by (elim conjE)
  from inv have fl: "\<And>i. i < unat (num_slots s) \<Longrightarrow> flags s ! i = 0"
    unfolding anderson_inv_def by (elim conjE) simp
  have k: "unat ?k < unat (num_slots s)"
    using b by (simp add: unat_mod_less)
  have "\<And>i. i < unat (num_slots s) \<Longrightarrow>
          (flags s)[unat ?k := 1] ! i = (if i = unat ?k then 1 else 0)"
    using fl k b len by (simp add: nth_list_update)
  then show ?thesis
    using len k ns by (simp add: anderson_inv_def s')
qed

lemma anderson_reachable_inv:
  assumes "anderson_reachable lock0 n s held" "length (flags lock0) = 64" "n \<noteq> 0"
  shows "anderson_inv n s held"
  using assms
  by (induction rule: anderson_reachable.induct)
     (auto intro: anderson_inv_init anderson_inv_acquire anderson_inv_release)

text \<open>
  Calls that run one after the other, each to its return. In every state they reach
  from \<^verbatim>\<open>anderson_init\<close>, \<open>serving_slot\<close> is a slot; while the lock is free the flag
  at \<open>serving_slot\<close> is the one flag of a slot that equals 1, and while the lock is
  held no flag of a slot equals 1.
\<close>

lemma anderson_flags_run_alone:
  assumes "length (flags lock0) = ANDERSON_LOCK_MAX_THREADS" and "n \<noteq> 0"
    and "anderson_reachable lock0 n s held"
  shows "unat (serving_slot s) < unat (num_slots s) \<and>
    (\<not> held \<longrightarrow> (\<forall>i < unat (num_slots s). flags s ! i = 1 \<longleftrightarrow> i = unat (serving_slot s))) \<and>
    (held \<longrightarrow> (\<forall>i < unat (num_slots s). flags s ! i \<noteq> 1))"
proof -
  have "anderson_inv n s held"
    using assms by (auto intro: anderson_reachable_inv simp: ANDERSON_LOCK_MAX_THREADS_def)
  then show ?thesis by (auto simp: anderson_inv_def)
qed

text \<open>
  Claim C4, as the code has it. The threads of \<open>T\<close>, no more of them than the lock has
  slots, call \<^verbatim>\<open>anderson_lock\<close> and \<^verbatim>\<open>anderson_unlock\<close> on a lock that
  \<^verbatim>\<open>anderson_init\<close> has initialised (64 flags, slot count not zero); their atomic
  accesses interleave in any order, and a thread calls \<^verbatim>\<open>anderson_unlock\<close> only while
  it holds the lock. In every state of such a run in which at most \<open>2^32\<close> calls of
  \<^verbatim>\<open>anderson_lock\<close> have started, and in every state of the run when the slot count
  divides \<open>2^32\<close>, \<open>serving_slot\<close> is a slot; while no thread is in its critical
  section exactly one of \<open>flags[0..num_slots-1]\<close> equals 1, the one at \<open>serving_slot\<close>;
  while a thread is in its critical section none of them equals 1, since
  \<^verbatim>\<open>anderson_lock\<close> clears the flag it waited for.
\<close>

theorem anderson_flags_invariant:
  assumes "length (flags lock0) = ANDERSON_LOCK_MAX_THREADS" and "n \<noteq> 0"
    and "finite T" and "card T \<le> unat (num_slots lock)"
    and "k \<le> 2 ^ 32 \<or> unat (num_slots lock) dvd 2 ^ 32"
    and "anderson_run lock0 n T k (lock, pc)"
  shows "unat (serving_slot lock) < unat (num_slots lock) \<and>
    ((\<forall>t. \<not> anderson_inside (pc t)) \<longrightarrow>
       (\<forall>i < unat (num_slots lock). flags lock ! i = 1 \<longleftrightarrow> i = unat (serving_slot lock))) \<and>
    ((\<exists>t. anderson_inside (pc t)) \<longrightarrow>
       (\<forall>i < unat (num_slots lock). flags lock ! i \<noteq> 1))"
proof -
  let ?m = "unat (num_slots (anderson_init lock0 n))"
  have ns: "num_slots lock = num_slots (anderson_init lock0 n)"
    using anderson_run_num_slots [OF assms(6)] by simp
  from anderson_run_tickets [OF assms(6) _ assms(2,3)] assms(1,4,5)
  obtain tk r where inv: "anderson_tickets ?m T k (lock, pc) tk r"
    by (auto simp: ns ANDERSON_LOCK_MAX_THREADS_def)
  then have "anderson_cells ?m k lock pc r" by (simp add: anderson_tickets_def)
  note c = anderson_cellsD [OF this]
  let ?j = "(if \<exists>t x. pc t = Releasing2 x then Suc r else r) mod ?m"
  have "?j < ?m" using c(2) by simp
  then have "?j < 2 ^ 32" using c(3) by simp
  then have srv: "unat (serving_slot lock) = ?j" by (simp add: c(6) unat_of_nat_u32)
  have a: "unat (serving_slot lock) < unat (num_slots lock)"
    using \<open>?j < ?m\<close> by (simp add: srv ns)
  have rel: "\<forall>t. \<not> anderson_inside (pc t) \<Longrightarrow> \<not> (\<exists>t x. pc t = Releasing2 x)"
  proof
    assume free: "\<forall>t. \<not> anderson_inside (pc t)" and "\<exists>t x. pc t = Releasing2 x"
    then obtain t x where "pc t = Releasing2 x" by blast
    then have "anderson_inside (pc t)" by simp
    with free show False by blast
  qed
  have b: "(\<forall>t. \<not> anderson_inside (pc t)) \<longrightarrow>
       (\<forall>i < unat (num_slots lock). flags lock ! i = 1 \<longleftrightarrow> i = unat (serving_slot lock))"
  proof (intro impI allI)
    fix i
    assume free: "\<forall>t. \<not> anderson_inside (pc t)" and i: "i < unat (num_slots lock)"
    have "unat (serving_slot lock) = r mod ?m" using rel [OF free] srv by simp
    moreover have "flags lock ! i = (if i = r mod ?m then 1 else 0)"
      using c(7) [of i] i free by (simp add: ns)
    ultimately show "flags lock ! i = 1 \<longleftrightarrow> i = unat (serving_slot lock)" by simp
  qed
  have d: "(\<exists>t. anderson_inside (pc t)) \<longrightarrow> (\<forall>i < unat (num_slots lock). flags lock ! i \<noteq> 1)"
  proof (intro impI allI)
    fix i
    assume held: "\<exists>t. anderson_inside (pc t)" and i: "i < unat (num_slots lock)"
    have "flags lock ! i = 0" using c(7) [of i] i held by (auto simp: ns)
    then show "flags lock ! i \<noteq> 1" by simp
  qed
  from a b d show ?thesis by blast
qed

text \<open>
  Two slots, two threads. Thread 0 has taken the lock and thread 1 has started its
  call, which waits at slot 1: thread 0 is in its critical section, and neither
  \<open>flags[0]\<close> nor \<open>flags[1]\<close> equals 1.
\<close>

theorem anderson_flags_invariant_witness:
  "anderson_run \<lparr>next_slot = 0, serving_slot = 0, flags = replicate 64 0, num_slots = 0\<rparr> 2 {0, 1} 2
     (\<lparr>next_slot = 2, serving_slot = 0, flags = replicate 64 0, num_slots = 2\<rparr>,
      (\<lambda>t. Outside)(0 := Holding, 1 := Waiting 1)) \<and>
   anderson_inside (((\<lambda>t. Outside)(0 := Holding, 1 := Waiting 1)) (0 :: nat)) \<and>
   flags \<lparr>next_slot = 2, serving_slot = 0, flags = replicate 64 0, num_slots = 2 :: u32\<rparr> ! 0
     \<noteq> (1 :: u32) \<and>
   flags \<lparr>next_slot = 2, serving_slot = 0, flags = replicate 64 0, num_slots = 2 :: u32\<rparr> ! 1
     \<noteq> (1 :: u32)"
proof -
  let ?l0 = "\<lparr>next_slot = 0, serving_slot = 0, flags = replicate 64 0, num_slots = 0 :: u32\<rparr>"
  let ?T = "{0, 1 :: nat}"
  let ?i = "\<lparr>next_slot = 0, serving_slot = 0, flags = (replicate 64 0)[0 := 1], num_slots = 2 :: u32\<rparr>"
  let ?a = "\<lparr>next_slot = 1, serving_slot = 0, flags = (replicate 64 0)[0 := 1], num_slots = 2 :: u32\<rparr>"
  let ?b = "\<lparr>next_slot = 1, serving_slot = 0, flags = replicate 64 0, num_slots = 2 :: u32\<rparr>"
  let ?c = "\<lparr>next_slot = 2, serving_slot = 0, flags = replicate 64 0, num_slots = 2 :: u32\<rparr>"
  have r0: "anderson_run ?l0 2 ?T 0 (?i, \<lambda>t. Outside)"
    using anderson_run.start [of ?l0 2 ?T] by (simp add: anderson_init_2)
  have r1: "anderson_run ?l0 2 ?T 1 (?a, (\<lambda>t. Outside)(0 := Waiting 0))"
    using run_fetch_add [OF r0, of 0] by simp
  have r2: "anderson_run ?l0 2 ?T 1 (?a, (\<lambda>t. Outside)(0 := Passed 0))"
    using run_pass [OF r1, of 0 0] by simp
  have r3: "anderson_run ?l0 2 ?T 1 (?b, (\<lambda>t. Outside)(0 := Holding))"
    using run_clear [OF r2, of 0 0] by (simp add: replicate_update_0)
  have r4: "anderson_run ?l0 2 ?T 2 (?c, (\<lambda>t. Outside)(0 := Holding, 1 := Waiting 1))"
    using run_fetch_add [OF r3, of 1] by (simp add: numeral_2_eq_2)
  have len: "length (flags ?l0) = ANDERSON_LOCK_MAX_THREADS"
    by (simp add: ANDERSON_LOCK_MAX_THREADS_def)
  from anderson_flags_invariant [OF len _ _ _ _ r4] r4 show ?thesis by simp
qed

text \<open>
  The claim as written fails in the states in which the lock is held. Two slots, one
  acquire: the state is reached, the lock is held, and neither \<open>flags[0]\<close> nor
  \<open>flags[1]\<close> equals 1.
\<close>

theorem anderson_flags_held_counterexample:
  "anderson_reachable
     \<lparr>next_slot = 0, serving_slot = 0, flags = replicate 64 0, num_slots = 0\<rparr> 2
     \<lparr>next_slot = 1, serving_slot = 0, flags = replicate 64 0, num_slots = 2\<rparr> True \<and>
   flags \<lparr>next_slot = 1, serving_slot = 0, flags = replicate 64 0, num_slots = 2 :: u32\<rparr>
     ! 0 \<noteq> (1 :: u32) \<and>
   flags \<lparr>next_slot = 1, serving_slot = 0, flags = replicate 64 0, num_slots = 2 :: u32\<rparr>
     ! 1 \<noteq> (1 :: u32)"
proof -
  let ?l0 = "\<lparr>next_slot = 0, serving_slot = 0, flags = replicate 64 0, num_slots = 0 :: u32\<rparr>"
  let ?s1 = "\<lparr>next_slot = 1, serving_slot = 0, flags = replicate 64 0, num_slots = 2 :: u32\<rparr>"
  have i: "anderson_init ?l0 2 =
      \<lparr>next_slot = 0, serving_slot = 0, flags = (replicate 64 0)[0 := 1], num_slots = 2\<rparr>"
    by (simp add: anderson_init_def Let_def atomic_store_def ANDERSON_LOCK_MAX_THREADS_def
          anderson_init_loop.simps list_update_same_conv)
  have a: "anderson_lock (anderson_init ?l0 2) = Some (Inr ?s1)"
    by (simp add: i anderson_lock_eq list_update_same_conv)
  have "anderson_reachable ?l0 2 ?s1 True"
    using anderson_reachable.acquire [OF anderson_reachable.init a] .
  then show ?thesis by simp
qed

section \<open>MCS lock: the uncontended path\<close>

text \<open>
  Claim C7. On a lock whose \<open>tail\<close> is null, \<^verbatim>\<open>mcs_lock\<close> with a node that is not null
  returns without entering its wait loop: the lock's \<open>tail\<close> is the node, and the node
  has \<open>next = NULL\<close> and \<open>locked = 0\<close>; no other node is touched. \<^verbatim>\<open>mcs_unlock\<close>
  with the same node then finds \<open>next = NULL\<close>, its compare-and-swap moves \<open>tail\<close> from
  the node back to null, and it returns with the store of nodes as it found it: no
  \<open>locked\<close> field is written.
\<close>

theorem mcs_uncontended:
  assumes "node \<noteq> NULL" and "mcs_lock_t.tail lock = NULL"
  shows "(let nodes' = nodes(node := (nodes node)\<lparr>mcs_node_t.next := NULL, mcs_node_t.locked := 0\<rparr>)
     in mcs_lock (lock, nodes) node = Some (Inr (lock\<lparr>mcs_lock_t.tail := node\<rparr>, nodes')) \<and>
        mcs_node_t.next (nodes' node) = NULL \<and>
        mcs_node_t.locked (nodes' node) = 0 \<and>
        atomic_cmpxchg_bool (mcs_lock_t.tail (lock\<lparr>mcs_lock_t.tail := node\<rparr>)) node 0 = (True, NULL) \<and>
        mcs_unlock (lock\<lparr>mcs_lock_t.tail := node\<rparr>, nodes') node =
          Some (Inr (lock\<lparr>mcs_lock_t.tail := NULL\<rparr>, nodes')))"
  using assms
  by (simp add: mcs_lock_def mcs_unlock_def Let_def atomic_xchg_def atomic_load_def
        atomic_cmpxchg_bool_def atomic_cmpxchg_def NULL_def)

text \<open>A node at address 0x1000 holding other values, and a free lock.\<close>

theorem mcs_uncontended_witness:
  "mcs_lock (\<lparr>mcs_lock_t.tail = 0\<rparr>,
             \<lambda>a. \<lparr>mcs_node_t.next = 7, mcs_node_t.locked = 1, mcs_node_t.prev = 3\<rparr>) 0x1000 =
     Some (Inr (\<lparr>mcs_lock_t.tail = 0x1000\<rparr>,
                (\<lambda>a. \<lparr>mcs_node_t.next = 7, mcs_node_t.locked = 1, mcs_node_t.prev = 3\<rparr>)
                  (0x1000 := \<lparr>mcs_node_t.next = 0, mcs_node_t.locked = 0, mcs_node_t.prev = 3\<rparr>))) \<and>
   mcs_unlock (\<lparr>mcs_lock_t.tail = 0x1000\<rparr>,
               (\<lambda>a. \<lparr>mcs_node_t.next = 7, mcs_node_t.locked = 1, mcs_node_t.prev = 3\<rparr>)
                 (0x1000 := \<lparr>mcs_node_t.next = 0, mcs_node_t.locked = 0, mcs_node_t.prev = 3\<rparr>)) 0x1000 =
     Some (Inr (\<lparr>mcs_lock_t.tail = 0\<rparr>,
                (\<lambda>a. \<lparr>mcs_node_t.next = 7, mcs_node_t.locked = 1, mcs_node_t.prev = 3\<rparr>)
                  (0x1000 := \<lparr>mcs_node_t.next = 0, mcs_node_t.locked = 0, mcs_node_t.prev = 3\<rparr>)))"
  using mcs_uncontended
    [of "0x1000" "\<lparr>mcs_lock_t.tail = 0\<rparr>"
        "\<lambda>a. \<lparr>mcs_node_t.next = 7, mcs_node_t.locked = 1, mcs_node_t.prev = 3\<rparr>"]
  by (simp add: NULL_def Let_def)

section \<open>Matched acquire; release pairs\<close>

lemma returned_simps [simp]:
  "returned None = None" "returned (Some (Inl f)) = None" "returned (Some (Inr s)) = Some s"
  by (simp_all add: returned_def)

lemma spin_pairs:
  "lock_pairs spin_lock (\<lambda>s. Some (spin_unlock s)) k (spin_init lock) = Some (spin_init lock)"
  by (induction k)
     (simp_all add: spin_init_def spin_unlock_def spin_lock_eq atomic_store_def
        atomic_store_release_def)

lemma tatas_pairs:
  "lock_pairs tatas_lock (\<lambda>s. Some (tatas_unlock s)) k (tatas_init lock) = Some (tatas_init lock)"
  by (induction k)
     (simp_all add: tatas_init_def tatas_unlock_def tatas_lock_eq atomic_store_def
        atomic_store_release_def)

lemma ticket_pairs_from:
  "serving s = next_ticket s \<Longrightarrow>
   lock_pairs ticket_lock (\<lambda>s. Some (ticket_unlock s)) k s =
     Some (s\<lparr>next_ticket := next_ticket s + of_nat k, serving := serving s + of_nat k\<rparr>)"
proof (induction k arbitrary: s)
  case 0
  then show ?case by simp
next
  case (Suc k)
  let ?s' = "s\<lparr>next_ticket := next_ticket s + 1, serving := serving s + 1\<rparr>"
  have step: "ticket_lock s = Some (s\<lparr>next_ticket := next_ticket s + 1\<rparr>)"
    using Suc.prems by (simp add: ticket_lock_eq)
  have rel: "ticket_unlock (s\<lparr>next_ticket := next_ticket s + 1\<rparr>) = ?s'"
    by (simp add: ticket_unlock_def atomic_load_def atomic_store_release_def)
  have "serving ?s' = next_ticket ?s'" using Suc.prems by simp
  from Suc.IH [OF this]
  have "lock_pairs ticket_lock (\<lambda>s. Some (ticket_unlock s)) k ?s' =
      Some (s\<lparr>next_ticket := next_ticket s + of_nat (Suc k),
               serving := serving s + of_nat (Suc k)\<rparr>)"
    by (simp add: ac_simps)
  moreover have "lock_pairs ticket_lock (\<lambda>s. Some (ticket_unlock s)) (Suc k) s =
      lock_pairs ticket_lock (\<lambda>s. Some (ticket_unlock s)) k ?s'"
    by (simp only: lock_pairs.simps step rel option.case)
  ultimately show ?case by simp
qed

lemma ticket_pairs:
  "lock_pairs ticket_lock (\<lambda>s. Some (ticket_unlock s)) k (ticket_init lock) =
     Some (lock\<lparr>next_ticket := of_nat k, serving := of_nat k\<rparr>)"
proof -
  have i: "ticket_init lock = lock\<lparr>next_ticket := 0, serving := 0\<rparr>"
    by (simp add: ticket_init_def Let_def atomic_store_def)
  show ?thesis using ticket_pairs_from [of "ticket_init lock" k] by (simp add: i)
qed

lemma mcs_lock_free:
  "node \<noteq> NULL \<Longrightarrow> mcs_lock_t.tail lock = NULL \<Longrightarrow>
   mcs_lock (lock, nodes) node =
     Some (Inr (lock\<lparr>mcs_lock_t.tail := node\<rparr>,
                nodes(node := (nodes node)\<lparr>mcs_node_t.next := NULL, mcs_node_t.locked := 0\<rparr>)))"
  by (simp add: mcs_lock_def Let_def atomic_xchg_def NULL_def)

lemma mcs_unlock_last:
  "node \<noteq> NULL \<Longrightarrow> mcs_lock_t.tail lock = node \<Longrightarrow> mcs_node_t.next (nodes node) = NULL \<Longrightarrow>
   mcs_unlock (lock, nodes) node = Some (Inr (lock\<lparr>mcs_lock_t.tail := NULL\<rparr>, nodes))"
  by (simp add: mcs_unlock_def Let_def atomic_load_def atomic_cmpxchg_bool_def
        atomic_cmpxchg_def NULL_def)

lemma mcs_pairs_from:
  "NULL \<notin> set ns \<Longrightarrow> mcs_lock_t.tail lock = NULL \<Longrightarrow>
   \<exists>nodes'. queue_lock_pairs (\<lambda>s a. returned (mcs_lock s a)) (\<lambda>s a. returned (mcs_unlock s a))
              ns (lock, nodes) = Some (lock, nodes')"
proof (induction ns arbitrary: nodes)
  case Nil
  then show ?case by simp
next
  case (Cons a ns)
  let ?nodes1 = "nodes(a := (nodes a)\<lparr>mcs_node_t.next := NULL, mcs_node_t.locked := 0\<rparr>)"
  from Cons.prems have a: "a \<noteq> NULL" and ns: "NULL \<notin> set ns" by auto
  have l: "mcs_lock (lock, nodes) a = Some (Inr (lock\<lparr>mcs_lock_t.tail := a\<rparr>, ?nodes1))"
    using a Cons.prems(2) by (rule mcs_lock_free)
  have u: "mcs_unlock (lock\<lparr>mcs_lock_t.tail := a\<rparr>, ?nodes1) a
             = Some (Inr (lock\<lparr>mcs_lock_t.tail := NULL\<rparr>, ?nodes1))"
    using a by (simp add: mcs_unlock_last)
  have same: "lock\<lparr>mcs_lock_t.tail := NULL\<rparr> = lock"
    using Cons.prems(2) by simp
  from Cons.IH [OF ns Cons.prems(2), of ?nodes1]
  obtain nodes' where
    "queue_lock_pairs (\<lambda>s a. returned (mcs_lock s a)) (\<lambda>s a. returned (mcs_unlock s a))
       ns (lock, ?nodes1) = Some (lock, nodes')"
    by blast
  then have
    "queue_lock_pairs (\<lambda>s a. returned (mcs_lock s a)) (\<lambda>s a. returned (mcs_unlock s a))
       (a # ns) (lock, nodes) = Some (lock, nodes')"
    by (simp only: queue_lock_pairs.simps l u same returned_simps option.case)
  then show ?case by blast
qed

lemma mcs_pairs:
  "NULL \<notin> set ns \<Longrightarrow>
   \<exists>nodes'. queue_lock_pairs (\<lambda>s a. returned (mcs_lock s a)) (\<lambda>s a. returned (mcs_unlock s a))
              ns (mcs_init lock, nodes) = Some (mcs_init lock, nodes')"
  by (rule mcs_pairs_from) (simp_all add: mcs_init_def atomic_store_def NULL_def)

lemma clh_lock_free:
  assumes "node \<noteq> NULL" "nodes node = Some nd"
    and "clh_lock_t.tail lock = ptr_to_u32 t" "u32_to_ptr (ptr_to_u32 t) = t" "t \<noteq> NULL"
    and "node \<noteq> t" "nodes t = Some tnd" "clh_node_t.locked tnd = 0"
  shows "clh_lock (lock, nodes) node =
     Some (Inr (lock\<lparr>clh_lock_t.tail := ptr_to_u32 node\<rparr>,
                nodes(node \<mapsto> nd\<lparr>clh_node_t.locked := 1, clh_node_t.prev := t\<rparr>)))"
  using assms
  by (simp add: clh_lock_def clh_deref_def Let_def atomic_xchg_def clh_lock_wait_eq)

lemma clh_unlock_eq:
  "node \<noteq> NULL \<Longrightarrow> nodes node = Some nd \<Longrightarrow>
   clh_unlock (lock, nodes) node =
     Inr (lock, nodes(node \<mapsto> nd\<lparr>clh_node_t.locked := 0\<rparr>))"
  by (simp add: clh_unlock_def clh_deref_def atomic_store_release_def)

lemma clh_pairs_from:
  "NULL \<notin> set ns \<Longrightarrow> set ns \<subseteq> dom nodes \<Longrightarrow>
   \<forall>a \<in> set (butlast (t # ns)). u32_to_ptr (ptr_to_u32 a) = a \<Longrightarrow>
   distinct_adj (t # ns) \<Longrightarrow>
   clh_lock_t.tail lock = ptr_to_u32 t \<Longrightarrow> t \<noteq> NULL \<Longrightarrow>
   nodes t = Some tnd \<Longrightarrow> clh_node_t.locked tnd = 0 \<Longrightarrow>
   \<exists>lock' nodes' nd.
     queue_lock_pairs (\<lambda>s a. returned (clh_lock s a)) (\<lambda>s a. returned (Some (clh_unlock s a)))
       ns (lock, nodes) = Some (lock', nodes') \<and>
     clh_lock_t.tail lock' = ptr_to_u32 (last (t # ns)) \<and>
     nodes' (last (t # ns)) = Some nd \<and> clh_node_t.locked nd = 0"
proof (induction ns arbitrary: lock nodes t tnd)
  case Nil
  then show ?case by simp
next
  case (Cons a ns)
  from Cons.prems have a: "a \<noteq> NULL" "a \<noteq> t" and ns: "NULL \<notin> set ns"
    and adj: "distinct_adj (a # ns)" and dom: "set ns \<subseteq> dom nodes"
    and fit: "u32_to_ptr (ptr_to_u32 t) = t"
      "\<forall>b \<in> set (butlast (a # ns)). u32_to_ptr (ptr_to_u32 b) = b"
    by auto
  from Cons.prems(2) obtain nd where nd: "nodes a = Some nd" by auto
  let ?lock1 = "lock\<lparr>clh_lock_t.tail := ptr_to_u32 a\<rparr>"
  let ?nodes1 = "nodes(a \<mapsto> nd\<lparr>clh_node_t.locked := 1, clh_node_t.prev := t\<rparr>)"
  let ?nd2 = "nd\<lparr>clh_node_t.prev := t, clh_node_t.locked := 0\<rparr>"
  let ?nodes2 = "nodes(a \<mapsto> ?nd2)"
  have l: "clh_lock (lock, nodes) a = Some (Inr (?lock1, ?nodes1))"
    using a nd Cons.prems(5,6,7,8) fit(1) by (intro clh_lock_free) simp_all
  have u: "clh_unlock (?lock1, ?nodes1) a = Inr (?lock1, ?nodes2)"
    using a by (simp add: clh_unlock_eq)
  have "\<exists>lock' nodes' nd'.
     queue_lock_pairs (\<lambda>s a. returned (clh_lock s a)) (\<lambda>s a. returned (Some (clh_unlock s a)))
       ns (?lock1, ?nodes2) = Some (lock', nodes') \<and>
     clh_lock_t.tail lock' = ptr_to_u32 (last (a # ns)) \<and>
     nodes' (last (a # ns)) = Some nd' \<and> clh_node_t.locked nd' = 0"
    using ns dom fit(2) adj a
    by (intro Cons.IH [where tnd = ?nd2]) auto
  then show ?case by (simp add: l u)
qed

lemma anderson_pair_step:
  assumes len: "length (flags lock) = 64" and n: "n \<noteq> 0"
    and j: "j < 2 ^ 32 \<or> unat (num_slots (anderson_init lock n)) dvd 2 ^ 32"
  shows "\<exists>s1. anderson_lock (anderson_after (anderson_init lock n) j) = Some (Inr s1) \<and>
           anderson_unlock s1 = Inr (anderson_after (anderson_init lock n) (Suc j))"
proof -
  let ?s0 = "anderson_init lock n"
  let ?ns = "num_slots ?s0"
  let ?m = "unat ?ns"
  let ?A = "anderson_after ?s0 j"
  have ns0: "?ns \<noteq> 0" using n by (simp add: anderson_init_fields)
  then have m0: "0 < ?m" by (simp add: unat_gt_0)
  have m64: "?m \<le> 64" by (rule unat_num_slots_init_le)
  have len0: "length (flags ?s0) = 64" using len by (simp add: anderson_init_fields)
  have fl0: "\<And>i. i < ?m \<Longrightarrow> flags ?s0 ! i = (if i = 0 then 1 else 0)"
    using anderson_init_flags [of _ lock n] m64 len by simp
  have jm: "j mod ?m < ?m" using m0 by simp
  have A_ns: "num_slots ?A = ?ns" by (simp add: anderson_after_def)
  have my: "unat (next_slot ?A mod ?ns) = j mod ?m"
    using slot_of_ticket [OF j] by (simp add: anderson_after_def)
  have set: "flags ?A ! (j mod ?m) = 1"
    using jm m64 len0 by (simp add: anderson_after_def)
  let ?s1 = "?A\<lparr>next_slot := next_slot ?A + 1, flags := (flags ?A)[j mod ?m := 0]\<rparr>"
  have acq: "anderson_lock ?A = Some (Inr ?s1)"
    using ns0 m64 set by (simp add: anderson_lock_eq A_ns my)
  have srv: "(serving_slot ?A + 1) mod ?ns = of_nat (Suc j mod ?m)"
    using next_serving_slot [OF m0 m64 jm]
    by (simp add: anderson_after_def mod_Suc_eq)
  have k: "unat (of_nat (Suc j mod ?m) :: u32) = Suc j mod ?m"
    using m0 m64 by (intro unat_of_nat_u32 less_trans [OF mod_less_divisor]) simp_all
  have clear: "(flags ?s0)[0 := 0, j mod ?m := 1, j mod ?m := 0] = (flags ?s0)[0 := 0]"
    using fl0 [OF jm] jm m64 len0
    by (cases "j mod ?m = 0") (simp_all add: list_update_same_conv)
  have "anderson_unlock ?s1 =
      Inr (?s1\<lparr>serving_slot := of_nat (Suc j mod ?m),
                flags := (flags ?s1)[Suc j mod ?m := 1]\<rparr>)"
    using ns0 m64 by (simp add: anderson_unlock_eq srv k A_ns)
  also have "?s1\<lparr>serving_slot := of_nat (Suc j mod ?m),
                flags := (flags ?s1)[Suc j mod ?m := 1]\<rparr> = anderson_after ?s0 (Suc j)"
    using clear by (simp add: anderson_after_def)
  finally show ?thesis using acq by blast
qed

lemma anderson_pairs_from:
  assumes "length (flags lock) = 64" "n \<noteq> 0"
  shows "j + k \<le> 2 ^ 32 \<or> unat (num_slots (anderson_init lock n)) dvd 2 ^ 32 \<Longrightarrow>
    lock_pairs (\<lambda>s. returned (anderson_lock s)) (\<lambda>s. returned (Some (anderson_unlock s))) k
      (anderson_after (anderson_init lock n) j) =
    Some (anderson_after (anderson_init lock n) (j + k))"
proof (induction k arbitrary: j)
  case 0
  then show ?case by simp
next
  case (Suc k)
  then have "j < 2 ^ 32 \<or> unat (num_slots (anderson_init lock n)) dvd 2 ^ 32" by auto
  from anderson_pair_step [OF assms this]
  obtain s1 where "anderson_lock (anderson_after (anderson_init lock n) j) = Some (Inr s1)"
    and "anderson_unlock s1 = Inr (anderson_after (anderson_init lock n) (Suc j))"
    by blast
  moreover have "Suc j + k \<le> 2 ^ 32 \<or> unat (num_slots (anderson_init lock n)) dvd 2 ^ 32"
    using Suc.prems by auto
  ultimately show ?case using Suc.IH [of "Suc j"] by simp
qed

lemma anderson_pairs:
  assumes "length (flags lock) = 64" "n \<noteq> 0"
    and "k \<le> 2 ^ 32 \<or> unat (num_slots (anderson_init lock n)) dvd 2 ^ 32"
  shows "lock_pairs (\<lambda>s. returned (anderson_lock s)) (\<lambda>s. returned (Some (anderson_unlock s))) k
      (anderson_init lock n) = Some (anderson_after (anderson_init lock n) k)"
  using anderson_pairs_from [OF assms(1,2), of 0 k] assms(3)
  by (simp add: anderson_after_0 [OF assms(1,2)])

text \<open>
  Claim C3, as the code has it. From the state its init operation produces, any number
  of matched acquire; release pairs, run one after the other, all return, and leave
  \<^item> the TAS lock, the TATAS lock and the MCS lock (nodes not null) in their initial state;
  \<^item> the ticket lock with \<open>next_ticket = serving = k mod 2^32\<close> after \<open>k\<close> pairs, which is
    the initial state only when \<open>2^32\<close> divides \<open>k\<close>;
  \<^item> the Anderson lock (64 flags, slot count not zero; at most \<open>2^32\<close> pairs, or any
    number of pairs when the slot count divides \<open>2^32\<close>) with \<open>next_slot = k mod 2^32\<close>,
    \<open>serving_slot = k mod num_slots\<close> and, among the flags of the slots, the flag of
    that slot alone set;
  \<^item> the CLH lock (the dummy allocated and the callers' nodes existing, none null; the
    dummy and every node but that of the last pair at addresses below \<open>2^32\<close>; no
    node used for two pairs in a row, the first not the dummy) with the low 32 bits of
    the address of the last pair's node in \<open>tail\<close>, where \<^verbatim>\<open>clh_init\<close> had put those
    of its dummy node, and the \<open>locked\<close> field of that node 0.

  It says nothing of the pairs that do not return: the pairs of an Anderson lock after
  \<open>2^32\<close> when the slot count does not divide \<open>2^32\<close>, a CLH node used for two pairs
  in a row, and a CLH pair after a node at an address from \<open>2^32\<close> on. The last
  subsection has them.
\<close>

theorem acquire_release_pairs:
  "lock_pairs spin_lock (\<lambda>s. Some (spin_unlock s)) k (spin_init tas) = Some (spin_init tas) \<and>
   lock_pairs tatas_lock (\<lambda>s. Some (tatas_unlock s)) k (tatas_init tatas) = Some (tatas_init tatas) \<and>
   (NULL \<notin> set ns \<longrightarrow>
      (\<exists>nodes'. queue_lock_pairs (\<lambda>s a. returned (mcs_lock s a)) (\<lambda>s a. returned (mcs_unlock s a))
                 ns (mcs_init mcs, mnodes) = Some (mcs_init mcs, nodes'))) \<and>
   lock_pairs ticket_lock (\<lambda>s. Some (ticket_unlock s)) k (ticket_init ticket) =
     Some (ticket\<lparr>next_ticket := of_nat k, serving := of_nat k\<rparr>) \<and>
   (ticket\<lparr>next_ticket := of_nat k, serving := of_nat k\<rparr> = ticket_init ticket
      \<longleftrightarrow> 2 ^ 32 dvd k) \<and>
   (length (flags anderson) = ANDERSON_LOCK_MAX_THREADS \<and> n \<noteq> 0 \<and>
    (k \<le> 2 ^ 32 \<or> unat (num_slots (anderson_init anderson n)) dvd 2 ^ 32) \<longrightarrow>
      (\<exists>s. lock_pairs (\<lambda>s. returned (anderson_lock s)) (\<lambda>s. returned (Some (anderson_unlock s))) k
              (anderson_init anderson n) = Some s \<and>
           num_slots s = num_slots (anderson_init anderson n) \<and>
           next_slot s = of_nat k \<and>
           serving_slot s = of_nat (k mod unat (num_slots s)) \<and>
           (\<forall>i < unat (num_slots s).
              flags s ! i = (if i = k mod unat (num_slots s) then 1 else 0)))) \<and>
   (dummy \<noteq> NULL \<and> NULL \<notin> set cns \<and> set cns \<subseteq> dom cnodes \<and>
    (\<forall>a \<in> set (butlast (dummy # cns)). u32_to_ptr (ptr_to_u32 a) = a) \<and> distinct_adj (dummy # cns) \<longrightarrow>
      (\<exists>s0 lock' nodes' nd.
         clh_init (clh, cnodes) dummy = Inr s0 \<and>
         queue_lock_pairs (\<lambda>s a. returned (clh_lock s a)) (\<lambda>s a. returned (Some (clh_unlock s a)))
           cns s0 = Some (lock', nodes') \<and>
         clh_lock_t.tail lock' = ptr_to_u32 (last (dummy # cns)) \<and>
         nodes' (last (dummy # cns)) = Some nd \<and> clh_node_t.locked nd = 0))"
proof -
  have ticket_eq: "(ticket\<lparr>next_ticket := of_nat k, serving := of_nat k\<rparr> = ticket_init ticket)
      \<longleftrightarrow> 2 ^ 32 dvd k"
  proof -
    have "ticket_init ticket = ticket\<lparr>next_ticket := 0, serving := 0\<rparr>"
      by (simp add: ticket_init_def Let_def atomic_store_def)
    moreover have "(of_nat k = (0 :: u32)) \<longleftrightarrow> 2 ^ 32 dvd k"
      by (simp add: word_of_nat_eq_0_iff)
    moreover have "(ticket\<lparr>next_ticket := of_nat k, serving := of_nat k\<rparr>
          = ticket\<lparr>next_ticket := 0, serving := 0\<rparr>) \<longleftrightarrow> (of_nat k = (0 :: u32))"
      by (metis (no_types) ticketlock_t.select_convs(1) ticketlock_t.surjective
            ticketlock_t.update_convs(1,2))
    ultimately show ?thesis by simp
  qed
  have anderson: "length (flags anderson) = ANDERSON_LOCK_MAX_THREADS \<and> n \<noteq> 0 \<and>
      (k \<le> 2 ^ 32 \<or> unat (num_slots (anderson_init anderson n)) dvd 2 ^ 32) \<longrightarrow>
      (\<exists>s. lock_pairs (\<lambda>s. returned (anderson_lock s)) (\<lambda>s. returned (Some (anderson_unlock s))) k
              (anderson_init anderson n) = Some s \<and>
           num_slots s = num_slots (anderson_init anderson n) \<and>
           next_slot s = of_nat k \<and>
           serving_slot s = of_nat (k mod unat (num_slots s)) \<and>
           (\<forall>i < unat (num_slots s).
              flags s ! i = (if i = k mod unat (num_slots s) then 1 else 0)))"
  proof (intro impI, elim conjE)
    assume len: "length (flags anderson) = ANDERSON_LOCK_MAX_THREADS" and n: "n \<noteq> 0"
      and k: "k \<le> 2 ^ 32 \<or> unat (num_slots (anderson_init anderson n)) dvd 2 ^ 32"
    let ?s0 = "anderson_init anderson n"
    let ?m = "unat (num_slots ?s0)"
    have len64: "length (flags anderson) = 64"
      using len by (simp add: ANDERSON_LOCK_MAX_THREADS_def)
    have m0: "0 < ?m" using n by (simp add: anderson_init_fields unat_gt_0)
    have m64: "?m \<le> 64" by (rule unat_num_slots_init_le)
    have fl0: "\<And>i. i < ?m \<Longrightarrow> flags ?s0 ! i = (if i = 0 then 1 else 0)"
      using anderson_init_flags [of _ anderson n] m64 len64 by simp
    have km: "k mod ?m < ?m" using m0 by simp
    have "\<And>i. i < ?m \<Longrightarrow>
        flags (anderson_after ?s0 k) ! i = (if i = k mod ?m then 1 else 0)"
      using fl0 km m64 len64
      by (simp add: anderson_after_def anderson_init_fields nth_list_update)
    then show "\<exists>s. lock_pairs (\<lambda>s. returned (anderson_lock s))
              (\<lambda>s. returned (Some (anderson_unlock s))) k ?s0 = Some s \<and>
           num_slots s = num_slots ?s0 \<and>
           next_slot s = of_nat k \<and>
           serving_slot s = of_nat (k mod unat (num_slots s)) \<and>
           (\<forall>i < unat (num_slots s).
              flags s ! i = (if i = k mod unat (num_slots s) then 1 else 0))"
      using anderson_pairs [OF len64 n k] by (simp add: anderson_after_def)
  qed
  have clh: "dummy \<noteq> NULL \<and> NULL \<notin> set cns \<and> set cns \<subseteq> dom cnodes \<and>
      (\<forall>a \<in> set (butlast (dummy # cns)). u32_to_ptr (ptr_to_u32 a) = a) \<and> distinct_adj (dummy # cns) \<longrightarrow>
      (\<exists>s0 lock' nodes' nd.
         clh_init (clh, cnodes) dummy = Inr s0 \<and>
         queue_lock_pairs (\<lambda>s a. returned (clh_lock s a)) (\<lambda>s a. returned (Some (clh_unlock s a)))
           cns s0 = Some (lock', nodes') \<and>
         clh_lock_t.tail lock' = ptr_to_u32 (last (dummy # cns)) \<and>
         nodes' (last (dummy # cns)) = Some nd \<and> clh_node_t.locked nd = 0)"
  proof (intro impI, elim conjE)
    assume d: "dummy \<noteq> NULL" and ns: "NULL \<notin> set cns" and dom: "set cns \<subseteq> dom cnodes"
      and fit: "\<forall>a \<in> set (butlast (dummy # cns)). u32_to_ptr (ptr_to_u32 a) = a"
      and adj: "distinct_adj (dummy # cns)"
    let ?lock0 = "clh\<lparr>clh_lock_t.tail := ptr_to_u32 dummy\<rparr>"
    let ?dnd = "\<lparr>clh_node_t.prev = NULL, clh_node_t.locked = 0\<rparr>"
    let ?nodes0 = "cnodes(dummy \<mapsto> ?dnd)"
    have i: "clh_init (clh, cnodes) dummy = Inr (?lock0, ?nodes0)"
      using d by (simp add: clh_init_def Let_def atomic_store_def)
    have dom0: "set cns \<subseteq> dom ?nodes0" using dom by auto
    have "\<exists>lock' nodes' nd.
       queue_lock_pairs (\<lambda>s a. returned (clh_lock s a)) (\<lambda>s a. returned (Some (clh_unlock s a)))
         cns (?lock0, ?nodes0) = Some (lock', nodes') \<and>
       clh_lock_t.tail lock' = ptr_to_u32 (last (dummy # cns)) \<and>
       nodes' (last (dummy # cns)) = Some nd \<and> clh_node_t.locked nd = 0"
      using ns dom0 fit adj d by (intro clh_pairs_from [where tnd = ?dnd]) simp_all
    then show "\<exists>s0 lock' nodes' nd.
         clh_init (clh, cnodes) dummy = Inr s0 \<and>
         queue_lock_pairs (\<lambda>s a. returned (clh_lock s a)) (\<lambda>s a. returned (Some (clh_unlock s a)))
           cns s0 = Some (lock', nodes') \<and>
         clh_lock_t.tail lock' = ptr_to_u32 (last (dummy # cns)) \<and>
         nodes' (last (dummy # cns)) = Some nd \<and> clh_node_t.locked nd = 0"
      using i by simp
  qed
  show ?thesis
    using spin_pairs [of k tas] tatas_pairs [of k tatas] mcs_pairs [of ns mcs mnodes]
      ticket_pairs [of k ticket] ticket_eq anderson clh
    by blast
qed

text \<open>
  Three pairs on each lock, two nodes for the queue locks, each lock initialised over
  other values: the TAS and the MCS lock are back at their initial state, the ticket
  lock stands at 3 and 3, the Anderson lock of two slots serves slot 1, and the tail of
  the CLH lock is the second node.
\<close>

theorem acquire_release_pairs_witness:
  "lock_pairs spin_lock (\<lambda>s. Some (spin_unlock s)) 3 (spin_init \<lparr>spinlock_t.locked = 5\<rparr>)
     = Some \<lparr>spinlock_t.locked = 0\<rparr> \<and>
   lock_pairs tatas_lock (\<lambda>s. Some (tatas_unlock s)) 3 (tatas_init \<lparr>tatas_lock_t.locked = 5\<rparr>)
     = Some \<lparr>tatas_lock_t.locked = 0\<rparr> \<and>
   (\<exists>nodes'. queue_lock_pairs (\<lambda>s a. returned (mcs_lock s a)) (\<lambda>s a. returned (mcs_unlock s a))
      [0x1000, 0x2000]
      (mcs_init \<lparr>mcs_lock_t.tail = 9\<rparr>,
       \<lambda>a. \<lparr>mcs_node_t.next = 0, mcs_node_t.locked = 0, mcs_node_t.prev = 0\<rparr>)
     = Some (\<lparr>mcs_lock_t.tail = 0\<rparr>, nodes')) \<and>
   lock_pairs ticket_lock (\<lambda>s. Some (ticket_unlock s)) 3 (ticket_init \<lparr>next_ticket = 7, serving = 9\<rparr>)
     = Some \<lparr>next_ticket = 3, serving = 3\<rparr> \<and>
   (\<exists>s. lock_pairs (\<lambda>s. returned (anderson_lock s)) (\<lambda>s. returned (Some (anderson_unlock s))) 3
          (anderson_init
             \<lparr>next_slot = 0, serving_slot = 0, flags = replicate 64 0, num_slots = 0\<rparr> 2) = Some s \<and>
        next_slot s = 3 \<and> serving_slot s = 1 \<and> flags s ! 0 = 0 \<and> flags s ! 1 = 1) \<and>
   (\<exists>s0 lock' nodes' nd.
      clh_init (\<lparr>clh_lock_t.tail = 0\<rparr>,
                [0x1000 \<mapsto> \<lparr>clh_node_t.prev = 0, clh_node_t.locked = 1\<rparr>,
                 0x2000 \<mapsto> \<lparr>clh_node_t.prev = 0, clh_node_t.locked = 1\<rparr>]) 0x3000
        = Inr s0 \<and>
      queue_lock_pairs (\<lambda>s a. returned (clh_lock s a)) (\<lambda>s a. returned (Some (clh_unlock s a)))
        [0x1000, 0x2000] s0 = Some (lock', nodes') \<and>
      clh_lock_t.tail lock' = 0x2000 \<and>
      nodes' 0x2000 = Some nd \<and> clh_node_t.locked nd = 0)"
proof -
  note t = acquire_release_pairs
    [where k = 3 and tas = "\<lparr>spinlock_t.locked = 5\<rparr>" and tatas = "\<lparr>tatas_lock_t.locked = 5\<rparr>"
       and ns = "[0x1000, 0x2000]" and mcs = "\<lparr>mcs_lock_t.tail = 9\<rparr>"
       and mnodes = "\<lambda>a. \<lparr>mcs_node_t.next = 0, mcs_node_t.locked = 0, mcs_node_t.prev = 0\<rparr>"
       and ticket = "\<lparr>next_ticket = 7, serving = 9\<rparr>"
       and anderson = "\<lparr>next_slot = 0, serving_slot = 0, flags = replicate 64 0, num_slots = 0\<rparr>"
       and n = 2 and dummy = "0x3000" and clh = "\<lparr>clh_lock_t.tail = 0\<rparr>"
       and cns = "[0x1000, 0x2000]"
       and cnodes = "[0x1000 \<mapsto> \<lparr>clh_node_t.prev = 0, clh_node_t.locked = 1\<rparr>,
                      0x2000 \<mapsto> \<lparr>clh_node_t.prev = 0, clh_node_t.locked = 1\<rparr>]"]
  have tas: "spin_init \<lparr>spinlock_t.locked = 5\<rparr> = \<lparr>spinlock_t.locked = 0\<rparr>"
    by (simp add: spin_init_def atomic_store_def)
  have tatas: "tatas_init \<lparr>tatas_lock_t.locked = 5\<rparr> = \<lparr>tatas_lock_t.locked = 0\<rparr>"
    by (simp add: tatas_init_def atomic_store_def)
  have mcs: "mcs_init \<lparr>mcs_lock_t.tail = 9\<rparr> = \<lparr>mcs_lock_t.tail = 0\<rparr>"
    by (simp add: mcs_init_def atomic_store_def)
  have ns: "num_slots (anderson_init
      \<lparr>next_slot = 0, serving_slot = 0, flags = replicate 64 0, num_slots = 0\<rparr> 2) = 2"
    by (simp add: anderson_init_fields)
  have m: "(3 :: nat) mod unat (2 :: u32) = 1" by simp
  from t have a: "\<exists>s. lock_pairs (\<lambda>s. returned (anderson_lock s))
          (\<lambda>s. returned (Some (anderson_unlock s))) 3
          (anderson_init
             \<lparr>next_slot = 0, serving_slot = 0, flags = replicate 64 0, num_slots = 0\<rparr> 2) = Some s \<and>
        next_slot s = 3 \<and> serving_slot s = 1 \<and> flags s ! 0 = 0 \<and> flags s ! 1 = 1"
    by (auto simp: ANDERSON_LOCK_MAX_THREADS_def ns m)
  have g: "NULL \<notin> set [0x1000, 0x2000 :: u32]"
    by (simp add: NULL_def)
  have h: "(0x3000 :: addr) \<noteq> NULL \<and> NULL \<notin> set [0x1000, 0x2000 :: addr] \<and>
      set [0x1000, 0x2000 :: addr]
        \<subseteq> dom [0x1000 \<mapsto> \<lparr>clh_node_t.prev = 0, clh_node_t.locked = 1\<rparr>,
                0x2000 \<mapsto> \<lparr>clh_node_t.prev = 0, clh_node_t.locked = 1\<rparr>] \<and>
      (\<forall>a \<in> set (butlast [0x3000, 0x1000, 0x2000 :: addr]). u32_to_ptr (ptr_to_u32 a) = a) \<and>
      distinct_adj [0x3000, 0x1000, 0x2000 :: addr]"
    by (simp add: NULL_def u32_to_ptr_def ptr_to_u32_def)
  have w: "ptr_to_u32 0x2000 = 0x2000" by (simp add: ptr_to_u32_def)
  from t h have c: "\<exists>s0 lock' nodes' nd.
      clh_init (\<lparr>clh_lock_t.tail = 0\<rparr>,
                [0x1000 \<mapsto> \<lparr>clh_node_t.prev = 0, clh_node_t.locked = 1\<rparr>,
                 0x2000 \<mapsto> \<lparr>clh_node_t.prev = 0, clh_node_t.locked = 1\<rparr>]) 0x3000
        = Inr s0 \<and>
      queue_lock_pairs (\<lambda>s a. returned (clh_lock s a)) (\<lambda>s a. returned (Some (clh_unlock s a)))
        [0x1000, 0x2000] s0 = Some (lock', nodes') \<and>
      clh_lock_t.tail lock' = 0x2000 \<and>
      nodes' 0x2000 = Some nd \<and> clh_node_t.locked nd = 0"
    by (simp add: w del: queue_lock_pairs.simps lock_pairs.simps)
  from t g have q: "\<exists>nodes'. queue_lock_pairs (\<lambda>s a. returned (mcs_lock s a))
      (\<lambda>s a. returned (mcs_unlock s a)) [0x1000, 0x2000]
      (mcs_init \<lparr>mcs_lock_t.tail = 9\<rparr>,
       \<lambda>a. \<lparr>mcs_node_t.next = 0, mcs_node_t.locked = 0, mcs_node_t.prev = 0\<rparr>)
     = Some (\<lparr>mcs_lock_t.tail = 0\<rparr>, nodes')"
    by (simp add: mcs del: queue_lock_pairs.simps lock_pairs.simps)
  from t have p: "lock_pairs spin_lock (\<lambda>s. Some (spin_unlock s)) 3 (spin_init \<lparr>spinlock_t.locked = 5\<rparr>)
     = Some \<lparr>spinlock_t.locked = 0\<rparr> \<and>
   lock_pairs tatas_lock (\<lambda>s. Some (tatas_unlock s)) 3 (tatas_init \<lparr>tatas_lock_t.locked = 5\<rparr>)
     = Some \<lparr>tatas_lock_t.locked = 0\<rparr> \<and>
   lock_pairs ticket_lock (\<lambda>s. Some (ticket_unlock s)) 3 (ticket_init \<lparr>next_ticket = 7, serving = 9\<rparr>)
     = Some \<lparr>next_ticket = 3, serving = 3\<rparr>"
    by (simp add: tas tatas del: lock_pairs.simps)
  from p q a c show ?thesis by blast
qed

text \<open>
  The claim as written fails for the ticket lock: one acquire; release pair from the
  initial state \<open>(0, 0)\<close> ends in \<open>(1, 1)\<close>.
\<close>

theorem ticket_round_trip_counterexample:
  "ticket_init \<lparr>next_ticket = 0, serving = 0\<rparr> = \<lparr>next_ticket = 0, serving = 0\<rparr> \<and>
   lock_pairs ticket_lock (\<lambda>s. Some (ticket_unlock s)) (Suc 0)
     (ticket_init \<lparr>next_ticket = 0, serving = 0\<rparr>) = Some \<lparr>next_ticket = 1, serving = 1\<rparr> \<and>
   \<lparr>next_ticket = 1, serving = 1 :: u32\<rparr> \<noteq> \<lparr>next_ticket = 0, serving = 0\<rparr>"
  by (simp add: ticket_init_def ticket_lock_eq ticket_unlock_def Let_def atomic_store_def
        atomic_load_def atomic_store_release_def)

subsection \<open>Pairs that do not return\<close>

text \<open>
  An Anderson lock whose slot count does not divide \<open>2^32\<close>. After \<open>2^32\<close> pairs
  \<open>next_slot\<close> has wrapped to 0, so the next \<^verbatim>\<open>anderson_lock\<close> waits at slot 0, while
  the flag that is set is that of slot \<open>2^32 mod num_slots\<close>: the call does not return.
\<close>

lemma lock_pairs_add:
  "lock_pairs acquire release (j + k) s =
     (case lock_pairs acquire release j s of
        None \<Rightarrow> None
      | Some s' \<Rightarrow> lock_pairs acquire release k s')"
  by (induction j arbitrary: s) (auto split: option.splits)

lemma anderson_pairs_hang:
  assumes len: "length (flags lock) = 64" and n: "n \<noteq> 0"
    and nd: "\<not> unat (num_slots (anderson_init lock n)) dvd 2 ^ 32" and k: "2 ^ 32 < k"
  shows "lock_pairs (\<lambda>s. returned (anderson_lock s)) (\<lambda>s. returned (Some (anderson_unlock s))) k
      (anderson_init lock n) = None"
proof -
  let ?s0 = "anderson_init lock n"
  let ?ns = "num_slots ?s0"
  let ?m = "unat ?ns"
  define A where "A = anderson_after ?s0 (2 ^ 32)"
  have ns0: "?ns \<noteq> 0" using n by (simp add: anderson_init_fields)
  have m64: "?m \<le> 64" by (rule unat_num_slots_init_le)
  have len0: "length (flags ?s0) = 64" using len by (simp add: anderson_init_fields)
  have A_ns: "num_slots A = ?ns" by (simp add: A_def anderson_after_def)
  have "(of_nat (2 ^ 32) :: u32) = 0" by (simp add: word_of_nat_eq_0_iff)
  then have nx: "next_slot A = 0" by (simp add: A_def anderson_after_def)
  have "(2 :: nat) ^ 32 mod ?m \<noteq> 0" using nd by (simp add: dvd_eq_mod_eq_0)
  then have fl: "flags A ! 0 = 0" using len0 by (simp add: A_def anderson_after_def)
  have acq: "anderson_lock A = None"
    using ns0 m64 fl by (simp add: anderson_lock_eq A_ns nx)
  have first: "lock_pairs (\<lambda>s. returned (anderson_lock s))
      (\<lambda>s. returned (Some (anderson_unlock s))) (2 ^ 32) ?s0 = Some A"
    unfolding A_def by (rule anderson_pairs [OF len n]) simp
  from k obtain k' where k': "k = 2 ^ 32 + Suc k'"
    by (metis less_iff_Suc_add add_Suc_right)
  show ?thesis
    unfolding k' lock_pairs_add [of _ _ "2 ^ 32" "Suc k'"] first
    by (simp add: acq)
qed

text \<open>
  A CLH node in two pairs that follow each other, as a thread with one persistent node
  has it: after the first pair \<open>tail\<close> points at the node, and the second \<^verbatim>\<open>clh_lock\<close>
  waits on the node's own \<open>locked\<close> field, which it has just set. It does not return.
\<close>

lemma clh_same_node_twice:
  assumes "a \<noteq> NULL" "nodes a = Some nd"
    and "clh_lock_t.tail lock = ptr_to_u32 a" "u32_to_ptr (ptr_to_u32 a) = a"
  shows "clh_lock (lock, nodes) a = None"
  using assms
  by (simp add: clh_lock_def clh_deref_def Let_def atomic_xchg_def clh_lock_wait_eq)

text \<open>
  A dummy node at an address from \<open>2^32\<close> on, as \<^verbatim>\<open>malloc\<close> gives it on a 64-bit
  target: \<open>tail\<close> holds the low 32 bits of the address, and the first \<^verbatim>\<open>clh_lock\<close>
  follows the pointer rebuilt from them, which points at no node.
\<close>

lemma clh_truncated_pointer:
  "clh_init (\<lparr>clh_lock_t.tail = 0\<rparr>,
             [0x7FFC00001000 \<mapsto> \<lparr>clh_node_t.prev = 0, clh_node_t.locked = 0\<rparr>]) 0x5555B2A01230 =
     Inr (\<lparr>clh_lock_t.tail = 0xB2A01230\<rparr>,
          [0x7FFC00001000 \<mapsto> \<lparr>clh_node_t.prev = 0, clh_node_t.locked = 0\<rparr>,
           0x5555B2A01230 \<mapsto> \<lparr>clh_node_t.prev = 0, clh_node_t.locked = 0\<rparr>]) \<and>
   clh_lock (\<lparr>clh_lock_t.tail = 0xB2A01230\<rparr>,
             [0x7FFC00001000 \<mapsto> \<lparr>clh_node_t.prev = 0, clh_node_t.locked = 0\<rparr>,
              0x5555B2A01230 \<mapsto> \<lparr>clh_node_t.prev = 0, clh_node_t.locked = 0\<rparr>]) 0x7FFC00001000 =
     Some (Inl WildPointer)"
  by (simp add: clh_init_def clh_lock_def clh_deref_def Let_def atomic_store_def atomic_xchg_def
        ptr_to_u32_def u32_to_ptr_def NULL_def clh_lock_wait_eq)

section \<open>Anderson lock: mutual exclusion\<close>

text \<open>
  While the invariant of the runs holds, that is with no more threads than slots and
  until the 32-bit counter \<open>next_slot\<close> wraps (for ever when the slot count divides
  \<open>2^32\<close>), two threads are never in their critical sections together.
\<close>

lemma anderson_run_exclusive:
  assumes "length (flags lock0) = ANDERSON_LOCK_MAX_THREADS" and "n \<noteq> 0"
    and "finite T" and "card T \<le> unat (num_slots lock)"
    and "k \<le> 2 ^ 32 \<or> unat (num_slots lock) dvd 2 ^ 32"
    and "anderson_run lock0 n T k (lock, pc)"
    and "anderson_inside (pc t)" and "anderson_inside (pc u)"
  shows "t = u"
proof -
  let ?m = "unat (num_slots (anderson_init lock0 n))"
  have ns: "num_slots lock = num_slots (anderson_init lock0 n)"
    using anderson_run_num_slots [OF assms(6)] by simp
  from anderson_run_tickets [OF assms(6) _ assms(2,3)] assms(1,4,5)
  obtain tk r where inv: "anderson_tickets ?m T k (lock, pc) tk r"
    by (auto simp: ns ANDERSON_LOCK_MAX_THREADS_def)
  then have "anderson_queue T k pc tk r" "anderson_places ?m pc tk r"
    by (simp_all add: anderson_tickets_def)
  from anderson_head_unique [OF this, of u t] assms(7,8) show ?thesis by simp
qed

text \<open>
  Three slots, two threads, and the counter at its wrap. After \<open>2^32 - 1\<close> acquire;
  release pairs \<open>next_slot\<close> is \<open>0xFFFFFFFF\<close>, slot 0 is served and its flag is set. Now
  both threads call \<^verbatim>\<open>anderson_lock\<close>. The fetch-add of thread 0 returns \<open>0xFFFFFFFF\<close>
  and that of thread 1 returns 0, the counter having wrapped; 3 does not divide
  \<open>2^32\<close>, and both numbers give slot 0. Both threads read \<open>flags[0]\<close> as 1 before
  either clears it.
\<close>

lemma anderson_wrap_both_passed:
  "anderson_run \<lparr>next_slot = 0, serving_slot = 0, flags = replicate 64 0, num_slots = 0\<rparr> 3 {0, 1}
     4294967297
     (\<lparr>next_slot = 1, serving_slot = 0, flags = (replicate 64 0)[0 := 1], num_slots = 3\<rparr>,
      (\<lambda>t. Outside)(0 := Passed 0, 1 := Passed 0))"
proof -
  let ?l0 = "\<lparr>next_slot = 0, serving_slot = 0, flags = replicate 64 0, num_slots = 0 :: u32\<rparr>"
  let ?T = "{0, 1 :: nat}"
  let ?a = "\<lparr>next_slot = 4294967295, serving_slot = 0, flags = (replicate 64 0)[0 := 1],
             num_slots = 3 :: u32\<rparr>"
  let ?b = "\<lparr>next_slot = 0, serving_slot = 0, flags = (replicate 64 0)[0 := 1], num_slots = 3 :: u32\<rparr>"
  let ?c = "\<lparr>next_slot = 1, serving_slot = 0, flags = (replicate 64 0)[0 := 1], num_slots = 3 :: u32\<rparr>"
  have len: "length (flags ?l0) = 64" by simp
  have after: "anderson_after (anderson_init ?l0 3) 4294967295 = ?a"
    by (simp add: anderson_init_3 anderson_after_def)
  have r0: "anderson_run ?l0 3 ?T 4294967295 (?a, \<lambda>t. Outside)"
    using anderson_run_pairs [OF len, of 3 0 ?T 4294967295] by (simp add: after)
  have wrap: "(4294967296 :: u32) = 0" by simp
  have slot: "unat ((4294967295 :: u32) mod 3) = 0" by simp
  have r1: "anderson_run ?l0 3 ?T 4294967296 (?b, (\<lambda>t. Outside)(0 := Waiting 0))"
    using run_fetch_add [OF r0, of 0] by (simp add: wrap slot)
  have r2: "anderson_run ?l0 3 ?T 4294967297 (?c, (\<lambda>t. Outside)(0 := Waiting 0, 1 := Waiting 0))"
    using run_fetch_add [OF r1, of 1] by simp
  have r3: "anderson_run ?l0 3 ?T 4294967297 (?c, (\<lambda>t. Outside)(0 := Passed 0, 1 := Waiting 0))"
    using run_pass [OF r2, of 0 0] by (simp add: fun_upd_twist)
  show ?thesis
    using run_pass [OF r3, of 1 0] by simp
qed

text \<open>
  Claim C1 fails for the Anderson lock. From the state above both calls of
  \<^verbatim>\<open>anderson_lock\<close> store 0 to \<open>flags[0]\<close> and return: the run of the two threads, on a
  lock of three slots, reaches a state in which thread 0 and thread 1 hold the lock
  together.
\<close>

theorem anderson_two_holders:
  "anderson_run \<lparr>next_slot = 0, serving_slot = 0, flags = replicate 64 0, num_slots = 0\<rparr> 3 {0, 1}
     4294967297
     (\<lparr>next_slot = 1, serving_slot = 0, flags = replicate 64 0, num_slots = 3\<rparr>,
      (\<lambda>t. Outside)(0 := Holding, 1 := Holding))"
proof -
  let ?l0 = "\<lparr>next_slot = 0, serving_slot = 0, flags = replicate 64 0, num_slots = 0 :: u32\<rparr>"
  let ?T = "{0, 1 :: nat}"
  let ?d = "\<lparr>next_slot = 1, serving_slot = 0, flags = replicate 64 0, num_slots = 3 :: u32\<rparr>"
  have r5: "anderson_run ?l0 3 ?T 4294967297 (?d, (\<lambda>t. Outside)(0 := Holding, 1 := Passed 0))"
    using run_clear [OF anderson_wrap_both_passed, of 0 0]
    by (simp add: fun_upd_twist replicate_update_0)
  show ?thesis
    using run_clear [OF r5, of 1 0] by (simp add: replicate_update_0)
qed

text \<open>
  When both threads have called \<^verbatim>\<open>anderson_unlock\<close>, one after the other, every
  thread is outside, \<open>serving_slot\<close> is 2 and two flags are set, \<open>flags[1]\<close> and
  \<open>flags[2]\<close>.
\<close>

lemma anderson_wrap_two_flags:
  "anderson_run \<lparr>next_slot = 0, serving_slot = 0, flags = replicate 64 0, num_slots = 0\<rparr> 3 {0, 1}
     4294967297
     (\<lparr>next_slot = 1, serving_slot = 2, flags = (replicate 64 0)[1 := 1, 2 := 1], num_slots = 3\<rparr>,
      \<lambda>t. Outside)"
proof -
  let ?l0 = "\<lparr>next_slot = 0, serving_slot = 0, flags = replicate 64 0, num_slots = 0 :: u32\<rparr>"
  let ?T = "{0, 1 :: nat}"
  let ?d = "\<lparr>next_slot = 1, serving_slot = 0, flags = replicate 64 0, num_slots = 3 :: u32\<rparr>"
  let ?e = "\<lparr>next_slot = 1, serving_slot = 1, flags = replicate 64 0, num_slots = 3 :: u32\<rparr>"
  let ?f = "\<lparr>next_slot = 1, serving_slot = 1, flags = (replicate 64 0)[1 := 1], num_slots = 3 :: u32\<rparr>"
  let ?g = "\<lparr>next_slot = 1, serving_slot = 2, flags = (replicate 64 0)[1 := 1], num_slots = 3 :: u32\<rparr>"
  let ?h = "\<lparr>next_slot = 1, serving_slot = 2, flags = (replicate 64 0)[1 := 1, 2 := 1],
             num_slots = 3 :: u32\<rparr>"
  have r5: "anderson_run ?l0 3 ?T 4294967297 (?d, (\<lambda>t. Outside)(0 := Holding, 1 := Passed 0))"
    using run_clear [OF anderson_wrap_both_passed, of 0 0]
    by (simp add: fun_upd_twist replicate_update_0)
  have r6: "anderson_run ?l0 3 ?T 4294967297 (?d, (\<lambda>t. Outside)(1 := Holding, 0 := Holding))"
    using run_clear [OF r5, of 1 0] by (simp add: replicate_update_0 fun_upd_twist)
  have r7: "anderson_run ?l0 3 ?T 4294967297 (?d, (\<lambda>t. Outside)(1 := Holding, 0 := Releasing1 1))"
    using run_load_serving [OF r6, of 0] by simp
  have r8: "anderson_run ?l0 3 ?T 4294967297 (?e, (\<lambda>t. Outside)(1 := Holding, 0 := Releasing2 1))"
    using run_store_serving [OF r7, of 0 1] by simp
  have out: "\<And>t :: nat. (\<lambda>t. Outside)(t := Outside) = (\<lambda>t. Outside)"
    by auto
  have r9: "anderson_run ?l0 3 ?T 4294967297 (?f, (\<lambda>t. Outside)(1 := Holding))"
    using run_set_flag [OF r8, of 0 1] by (simp add: fun_upd_twist out)
  have r10: "anderson_run ?l0 3 ?T 4294967297 (?f, (\<lambda>t. Outside)(1 := Releasing1 2))"
    using run_load_serving [OF r9, of 1] by simp
  have r11: "anderson_run ?l0 3 ?T 4294967297 (?g, (\<lambda>t. Outside)(1 := Releasing2 2))"
    using run_store_serving [OF r10, of 1 2] by simp
  show ?thesis
    using run_set_flag [OF r11, of 1 2] by (simp add: out)
qed

end
